theory Spec2Isabelle
  imports Complex_Main "HOL-Library.AList" "HOL-Library.Multiset"
begin

section \<open>The knowledge retriever of server/rag.js\<close>

text \<open>
  A shallow embedding of the retriever: tokenizer, chunker, index builder, scorer,
  MMR selector, context assembler and the two exported entry points.

  Conventions of the embedding.
  \<^item> A JavaScript string is the list of its UTF-16 code units (\<open>jstring\<close>), so that
    \<open>length\<close> is the \<open>.length\<close> of the source and the CJK range of the regular
    expressions can be written down. \<open>js\<close> turns an Isabelle literal into such a list.
  \<^item> A JavaScript \<open>Set\<close> is the list of its elements in insertion order, without
    repetition; a \<open>Map\<close> is an association list in insertion order.
  \<^item> JavaScript numbers that hold counts and lengths are \<open>nat\<close>, time stamps are
    \<open>int\<close>, and the scores are \<open>real\<close>: the rounding of IEEE doubles is not modelled,
    and an environment variable that stands for a count (\<open>RAG_TOP_K\<close>, the sizes, the
    multiplier) is taken to hold a natural number.
  \<^item> A rejected promise (a thrown exception) is the \<open>Inl\<close> of a sum type.
  \<^item> The constants of lines 4 to 15 are functions of the process environment
    \<open>procEnv\<close>, which the functions that read them take as their first argument.
\<close>

subsection \<open>Strings\<close>

type_synonym jstring = "nat list"

definition js :: "string \<Rightarrow> jstring" where
  "js s = map of_char s"

text \<open>White space of \<open>\s\<close> and of \<open>String.prototype.trim\<close>: the same set of code units.\<close>

definition isSpace :: "nat \<Rightarrow> bool" where
  "isSpace c \<longleftrightarrow>
     c = 9 \<or> c = 10 \<or> c = 11 \<or> c = 12 \<or> c = 13 \<or> c = 32 \<or> c = 160 \<or> c = 5760 \<or>
     (8192 \<le> c \<and> c \<le> 8202) \<or> c = 8232 \<or> c = 8233 \<or> c = 8239 \<or> c = 8287 \<or>
     c = 12288 \<or> c = 65279"

text \<open>The character classes \<open>[a-z0-9_]\<close> and U+4E00 to U+9FFF of the regular expressions.\<close>

definition isWord :: "nat \<Rightarrow> bool" where
  "isWord c \<longleftrightarrow> (97 \<le> c \<and> c \<le> 122) \<or> (48 \<le> c \<and> c \<le> 57) \<or> c = 95"

definition isCJK :: "nat \<Rightarrow> bool" where
  "isCJK c \<longleftrightarrow> 19968 \<le> c \<and> c \<le> 40959"

text \<open>The terminators of the sentence splitter: U+3002, U+FF01, U+FF1F and the ASCII
  full stop, exclamation mark and question mark.\<close>

definition isTerminator :: "nat \<Rightarrow> bool" where
  "isTerminator c \<longleftrightarrow> c = 12290 \<or> c = 65281 \<or> c = 65311 \<or> c = 46 \<or> c = 33 \<or> c = 63"

definition trim :: "jstring \<Rightarrow> jstring" where
  "trim s = rev (dropWhile isSpace (rev (dropWhile isSpace s)))"

text \<open>\<open>toLowerCase\<close> is a built-in whose Unicode case table is not part of the
  repository. The model maps the letters A to Z and leaves every other code unit as it
  is; on ASCII text this is the built-in exactly.\<close>

definition lowerChar :: "nat \<Rightarrow> nat" where
  "lowerChar c = (if 65 \<le> c \<and> c \<le> 90 then c + 32 else c)"

definition toLowerCase :: "jstring \<Rightarrow> jstring" where
  "toLowerCase s = map lowerChar s"

text \<open>\<open>s.slice(a, b)\<close> for \<open>0 \<le> a \<le> b\<close>; both ends are clamped to the length.\<close>

definition slice :: "jstring \<Rightarrow> nat \<Rightarrow> nat \<Rightarrow> jstring" where
  "slice s a b = take (b - a) (drop a s)"

text \<open>\<open>s.includes(p)\<close>.\<close>

fun includesStr :: "jstring \<Rightarrow> jstring \<Rightarrow> bool" where
  "includesStr [] p = (p = [])"
| "includesStr (c # cs) p = (take (length p) (c # cs) = p \<or> includesStr cs p)"

text \<open>\<open>s.replace(/\s+/g, ' ')\<close>: every maximal run of white space becomes one space.\<close>

fun collapseSpaces :: "jstring \<Rightarrow> jstring" where
  "collapseSpaces [] = []"
| "collapseSpaces [c] = (if isSpace c then [32] else [c])"
| "collapseSpaces (c # d # cs) =
     (if isSpace c then (if isSpace d then collapseSpaces (d # cs) else 32 # collapseSpaces (d # cs))
      else c # collapseSpaces (d # cs))"

text \<open>\<open>s.replace(/\s+/g, '')\<close>.\<close>

definition stripSpaces :: "jstring \<Rightarrow> jstring" where
  "stripSpaces s = filter (\<lambda>c. \<not> isSpace c) s"

text \<open>\<open>s.replace(/\r\n/g, '\n')\<close>: one pass from the left, the replacement is not
  scanned again.\<close>

fun replaceCRLF :: "jstring \<Rightarrow> jstring" where
  "replaceCRLF [] = []"
| "replaceCRLF [c] = [c]"
| "replaceCRLF (c # d # cs) =
     (if c = 13 \<and> d = 10 then 10 # replaceCRLF cs else c # replaceCRLF (d # cs))"

text \<open>\<open>s.match(/[C]{n,}/g) || []\<close> for a character class \<open>C\<close>: the maximal runs of
  \<open>C\<close> of length at least \<open>n\<close>, from left to right.\<close>

fun runs :: "(nat \<Rightarrow> bool) \<Rightarrow> jstring \<Rightarrow> jstring \<Rightarrow> jstring list" where
  "runs P acc [] = (if acc = [] then [] else [rev acc])"
| "runs P acc (c # cs) =
     (if P c then runs P (c # acc) cs
      else (if acc = [] then [] else [rev acc]) @ runs P [] cs)"

definition matchRuns :: "(nat \<Rightarrow> bool) \<Rightarrow> nat \<Rightarrow> jstring \<Rightarrow> jstring list" where
  "matchRuns P n s = filter (\<lambda>r. n \<le> length r) (runs P [] s)"

text \<open>\<open>[...new Set(xs)]\<close>: the first occurrence of every element, in order.\<close>

fun setOf :: "'a list \<Rightarrow> 'a list" where
  "setOf [] = []"
| "setOf (x # xs) = x # filter (\<lambda>y. y \<noteq> x) (setOf xs)"

text \<open>\<open>items.join(sep)\<close>.\<close>

fun join :: "jstring \<Rightarrow> jstring list \<Rightarrow> jstring" where
  "join sep [] = []"
| "join sep [x] = x"
| "join sep (x # y # ys) = x @ sep @ join sep (y # ys)"

text \<open>The decimal digits of a number, as a template literal prints it.\<close>

function showNat :: "nat \<Rightarrow> jstring" where
  "showNat n = (if n < 10 then [48 + n] else showNat (n div 10) @ [48 + n mod 10])"
  by pat_completeness auto
termination
  by (relation "measure (\<lambda>n. n)") auto

declare showNat.simps [simp del]

subsection \<open>Configuration (lines 4 to 15)\<close>

text \<open>The variables of \<open>process.env\<close> that the module reads. \<open>None\<close> is a variable that
  is unset (or empty, which \<open>||\<close> treats alike); \<open>Some v\<close> is a variable whose text
  \<open>Number\<close> reads as \<open>v\<close>.\<close>

record procEnv =
  E_RAG_ENABLED :: "jstring option"
  E_RAG_TOP_K :: "nat option"
  E_RAG_MIN_SCORE :: "real option"
  E_RAG_CHUNK_SIZE :: "nat option"
  E_RAG_CONTEXT_MAX_CHARS :: "nat option"
  E_RAG_CACHE_TTL_MS :: "int option"
  E_RAG_BM25_K1 :: "real option"
  E_RAG_BM25_B :: "real option"
  E_RAG_CANDIDATE_MULTIPLIER :: "nat option"
  E_RAG_MMR_LAMBDA :: "real option"
  E_RAG_NGRAM_SIZE :: "nat option"

definition orDefault :: "'a option \<Rightarrow> 'a \<Rightarrow> 'a" where
  "orDefault v d = (case v of None \<Rightarrow> d | Some x \<Rightarrow> x)"

definition RAG_ENABLED :: "procEnv \<Rightarrow> bool" where
  "RAG_ENABLED e \<longleftrightarrow> toLowerCase (orDefault (E_RAG_ENABLED e) (js ''true'')) \<noteq> js ''false''"

definition RAG_TOP_K :: "procEnv \<Rightarrow> nat" where
  "RAG_TOP_K e = max 1 (orDefault (E_RAG_TOP_K e) 4)"

definition RAG_MIN_SCORE :: "procEnv \<Rightarrow> real" where
  "RAG_MIN_SCORE e = max 0 (orDefault (E_RAG_MIN_SCORE e) (4 / 5))"

definition RAG_CHUNK_SIZE :: "procEnv \<Rightarrow> nat" where
  "RAG_CHUNK_SIZE e = max 200 (orDefault (E_RAG_CHUNK_SIZE e) 800)"

definition RAG_CONTEXT_MAX_CHARS :: "procEnv \<Rightarrow> nat" where
  "RAG_CONTEXT_MAX_CHARS e = max 800 (orDefault (E_RAG_CONTEXT_MAX_CHARS e) 4000)"

definition RAG_CACHE_TTL_MS :: "procEnv \<Rightarrow> int" where
  "RAG_CACHE_TTL_MS e = max 1000 (orDefault (E_RAG_CACHE_TTL_MS e) 15000)"

definition RAG_BM25_K1 :: "procEnv \<Rightarrow> real" where
  "RAG_BM25_K1 e = max (1 / 5) (orDefault (E_RAG_BM25_K1 e) (6 / 5))"

definition RAG_BM25_B :: "procEnv \<Rightarrow> real" where
  "RAG_BM25_B e = min 1 (max 0 (orDefault (E_RAG_BM25_B e) (3 / 4)))"

definition RAG_CANDIDATE_MULTIPLIER :: "procEnv \<Rightarrow> nat" where
  "RAG_CANDIDATE_MULTIPLIER e = max 2 (orDefault (E_RAG_CANDIDATE_MULTIPLIER e) 8)"

definition RAG_MMR_LAMBDA :: "procEnv \<Rightarrow> real" where
  "RAG_MMR_LAMBDA e = min 1 (max 0 (orDefault (E_RAG_MMR_LAMBDA e) (39 / 50)))"

definition RAG_NGRAM_SIZE :: "procEnv \<Rightarrow> nat" where
  "RAG_NGRAM_SIZE e = max 2 (orDefault (E_RAG_NGRAM_SIZE e) 3)"

text \<open>The environment with no variable set: every constant has its default.\<close>

definition defaultEnv :: procEnv where
  "defaultEnv = \<lparr> E_RAG_ENABLED = None, E_RAG_TOP_K = None, E_RAG_MIN_SCORE = None,
     E_RAG_CHUNK_SIZE = None, E_RAG_CONTEXT_MAX_CHARS = None, E_RAG_CACHE_TTL_MS = None,
     E_RAG_BM25_K1 = None, E_RAG_BM25_B = None, E_RAG_CANDIDATE_MULTIPLIER = None,
     E_RAG_MMR_LAMBDA = None, E_RAG_NGRAM_SIZE = None \<rparr>"

subsection \<open>Tokenizer and features (lines 29 to 124)\<close>

definition clamp01 :: "real \<Rightarrow> real" where
  "clamp01 v = max 0 (min 1 v)"

text \<open>A set's \<open>size\<close> is the length of its element list; \<open>has\<close> is membership. The loop
  runs over the smaller set (the first one when the sizes agree).\<close>

definition intersectCount :: "'a list \<Rightarrow> 'a list \<Rightarrow> nat" where
  "intersectCount setA setB =
     (if length setA = 0 \<or> length setB = 0 then 0
      else let smaller = (if length setA \<le> length setB then setA else setB);
               larger = (if length setA \<le> length setB then setB else setA)
           in length (filter (\<lambda>item. item \<in> set larger) smaller))"

definition buildCharNgrams :: "jstring \<Rightarrow> nat \<Rightarrow> jstring list" where
  "buildCharNgrams txt n =
     (let normalized = stripSpaces (toLowerCase txt)
      in if normalized = [] then []
         else if length normalized \<le> n then [normalized]
         else setOf (map (\<lambda>index. slice normalized index (index + n))
                       [0 ..< Suc (length normalized - n)]))"

definition blockTokens :: "jstring \<Rightarrow> jstring list" where
  "blockTokens block =
     (if length block \<le> 8 then [block] else []) @
     map (\<lambda>index. slice block index (index + 2)) [0 ..< length block - 1]"

definition tokenize :: "jstring \<Rightarrow> jstring list" where
  "tokenize txt =
     (let safeText = toLowerCase txt;
          english = matchRuns isWord 2 safeText;
          chineseChars = map (\<lambda>c. [c]) (filter isCJK safeText);
          chineseBlocks = matchRuns isCJK 2 safeText
      in english @ chineseChars @ concat (map blockTokens chineseBlocks))"

definition tokenWeight :: "jstring \<Rightarrow> real" where
  "tokenWeight token =
     (if 2 \<le> length token \<and> list_all isCJK token then 27 / 20
      else if length token = 1 \<and> list_all isCJK token then 4 / 5
      else if 6 \<le> length token then 5 / 4
      else 1)"

record queryFeatures =
  qtext :: jstring
  uniqueTokens :: "jstring list"
  ngrams :: "jstring list"
  phrases :: "jstring list"

definition buildQueryFeatures :: "procEnv \<Rightarrow> jstring \<Rightarrow> queryFeatures" where
  "buildQueryFeatures e queryText =
     (let normalized = toLowerCase (trim (collapseSpaces queryText));
          tokens = tokenize normalized;
          phrases0 = (if 8 \<le> length normalized then [normalized] else []) @
                     matchRuns isCJK 3 normalized @ matchRuns isWord 5 normalized
      in \<lparr> qtext = normalized, uniqueTokens = setOf tokens,
           ngrams = buildCharNgrams normalized (RAG_NGRAM_SIZE e),
           phrases = take 10 (setOf phrases0) \<rparr>)"

subsection \<open>Chunks (lines 126 to 199)\<close>

record chunk =
  cid :: jstring
  source :: jstring
  ctext :: jstring
  tokensCount :: nat
  tokenFreq :: "(jstring \<times> nat) list"
  tokenSet :: "jstring list"
  ngramSet :: "jstring list"
  lowerText :: jstring

text \<open>\<open>m.get(k) || 0\<close> and \<open>m.set(k, (m.get(k) || 0) + 1)\<close> on a \<open>Map\<close> of counts.\<close>

definition getOr0 :: "('k \<times> nat) list \<Rightarrow> 'k \<Rightarrow> nat" where
  "getOr0 m k = (case map_of m k of None \<Rightarrow> 0 | Some n \<Rightarrow> n)"

definition bump :: "'k \<Rightarrow> ('k \<times> nat) list \<Rightarrow> ('k \<times> nat) list" where
  "bump k m = AList.update k (getOr0 m k + 1) m"

definition createChunk :: "procEnv \<Rightarrow> jstring \<Rightarrow> jstring \<Rightarrow> nat \<Rightarrow> chunk option" where
  "createChunk e src txt index =
     (let normalized = trim (collapseSpaces txt)
      in if normalized = [] then None
         else let tokens = tokenize normalized
              in if length tokens = 0 then None
                 else let tokenFreq = fold bump tokens []
                      in Some \<lparr> cid = src @ js ''#'' @ showNat index, source = src,
                                ctext = normalized, tokensCount = length tokens,
                                tokenFreq = tokenFreq, tokenSet = map fst tokenFreq,
                                ngramSet = buildCharNgrams normalized (RAG_NGRAM_SIZE e),
                                lowerText = toLowerCase normalized \<rparr>)"

text \<open>\<open>s.split(/\n{2,}/)\<close>: the pieces between the maximal runs of two or more line
  feeds.\<close>

function splitBlankLines :: "jstring \<Rightarrow> jstring \<Rightarrow> jstring list" where
  "splitBlankLines acc [] = [rev acc]"
| "splitBlankLines acc [c] = [rev (c # acc)]"
| "splitBlankLines acc (c # d # cs) =
     (if c = 10 \<and> d = 10 then rev acc # splitBlankLines [] (dropWhile (\<lambda>x. x = 10) cs)
      else splitBlankLines (c # acc) (d # cs))"
  by pat_completeness auto
termination
proof (relation "measure (\<lambda>(acc, s). length s)")
  fix acc :: jstring and c d :: nat and cs :: jstring
  have "length (dropWhile (\<lambda>x. x = 10) cs) \<le> length cs"
    by (rule length_dropWhile_le)
  then show "(([], dropWhile (\<lambda>x. x = 10) cs), (acc, c # d # cs))
               \<in> measure (\<lambda>(acc, s). length s)"
    by simp
qed auto

text \<open>\<open>s.split(/(?<=[T])\s*/)\<close> for the terminators \<open>T\<close>: a cut after every terminator
  that is not the last code unit, and the white space that follows the cut is dropped.\<close>

function splitSentences :: "jstring \<Rightarrow> jstring \<Rightarrow> jstring list" where
  "splitSentences acc [] = [rev acc]"
| "splitSentences acc (c # cs) =
     (if isTerminator c \<and> cs \<noteq> [] then rev (c # acc) # splitSentences [] (dropWhile isSpace cs)
      else splitSentences (c # acc) cs)"
  by pat_completeness auto
termination
proof (relation "measure (\<lambda>(acc, s). length s)")
  fix acc :: jstring and c :: nat and cs :: jstring
  have "length (dropWhile isSpace cs) \<le> length cs"
    by (rule length_dropWhile_le)
  then show "(([], dropWhile isSpace cs), (acc, c # cs)) \<in> measure (\<lambda>(acc, s). length s)"
    by simp
qed auto

text \<open>The loop \<open>for (start = 0; start < sentence.length; start += maxChars)\<close>. With
  \<open>maxChars = 0\<close> and a non-empty sentence it never ends: that is the value \<open>None\<close>.\<close>

partial_function (option) hardSlice :: "jstring \<Rightarrow> nat \<Rightarrow> nat \<Rightarrow> jstring list option" where
  "hardSlice sentence maxChars start =
     (if start < length sentence
      then Option.bind (hardSlice sentence maxChars (start + maxChars))
             (\<lambda>rest. Some (slice sentence start (start + maxChars) # rest))
      else Some [])"

text \<open>The state of the chunker: \<open>result\<close> and \<open>current\<close>.\<close>

definition pushCurrent :: "jstring list \<times> jstring \<Rightarrow> jstring list \<times> jstring" where
  "pushCurrent st =
     (let trimmed = trim (snd st)
      in (if trimmed \<noteq> [] then fst st @ [trimmed] else fst st, []))"

definition sentenceStep ::
  "nat \<Rightarrow> jstring list \<times> jstring \<Rightarrow> jstring \<Rightarrow> (jstring list \<times> jstring) option" where
  "sentenceStep maxChars st sentence =
     (if length (trim (snd st @ js '' '' @ sentence)) \<le> maxChars
      then Some (fst st, trim (snd st @ js '' '' @ sentence))
      else let st' = pushCurrent st
           in if length sentence \<le> maxChars then Some (fst st', sentence)
              else (case hardSlice sentence maxChars 0 of
                      None \<Rightarrow> None
                    | Some windows \<Rightarrow> Some (fst st' @ windows, snd st')))"

fun foldOpt :: "('s \<Rightarrow> 'a \<Rightarrow> 's option) \<Rightarrow> 'a list \<Rightarrow> 's \<Rightarrow> 's option" where
  "foldOpt f [] s = Some s"
| "foldOpt f (x # xs) s = (case f s x of None \<Rightarrow> None | Some s' \<Rightarrow> foldOpt f xs s')"

definition paragraphStep ::
  "nat \<Rightarrow> jstring list \<times> jstring \<Rightarrow> jstring \<Rightarrow> (jstring list \<times> jstring) option" where
  "paragraphStep maxChars st paragraph =
     (if length paragraph > maxChars
      then foldOpt (sentenceStep maxChars)
             (filter (\<lambda>x. x \<noteq> []) (splitSentences [] paragraph)) st
      else if length (trim (snd st @ [10, 10] @ paragraph)) \<le> maxChars
      then Some (fst st, trim (snd st @ [10, 10] @ paragraph))
      else Some (fst (pushCurrent st), paragraph))"

definition paragraphsOf :: "jstring \<Rightarrow> jstring list" where
  "paragraphsOf txt = filter (\<lambda>x. x \<noteq> []) (map trim (splitBlankLines [] (replaceCRLF txt)))"

definition splitIntoChunks :: "jstring \<Rightarrow> nat \<Rightarrow> jstring list option" where
  "splitIntoChunks txt maxChars =
     (case foldOpt (paragraphStep maxChars) (paragraphsOf txt) ([], []) of
        None \<Rightarrow> None
      | Some st \<Rightarrow> Some (fst (pushCurrent st)))"

subsection \<open>The document source and the index (lines 20 to 27 and 201 to 295)\<close>

text \<open>The directory tree that \<open>fs\<close> shows: a file with its content (\<open>None\<close> when
  \<open>readFile\<close> fails on it) or a directory with its entries (\<open>None\<close> when \<open>readdir\<close>
  fails on it). An entry that is not a directory counts as a file, as
  \<open>entry.isDirectory()\<close> has it.\<close>

datatype fsnode = File "jstring option" | Dir "(jstring \<times> fsnode) list option"

text \<open>The world outside the module: the node at \<open>knowledgeRoot\<close> (\<open>None\<close> when
  \<open>fs.access\<close> fails), the absolute path \<open>knowledgeRoot\<close> and its components relative
  to the working directory. A path is the list of its components; \<open>path.join\<close> adds
  one, and the relative path with forward slashes is their \<open>join\<close>.\<close>

record world =
  rootNode :: "fsnode option"
  knowledgeRoot :: jstring
  rootRelative :: "jstring list"

datatype error = ReaddirFailed "jstring list"

text \<open>\<open>path.extname\<close> of an entry name: from the last dot on, and empty when there is
  no dot or the only dot comes first.\<close>

definition extname :: "jstring \<Rightarrow> jstring" where
  "extname name =
     (let afterDot = takeWhile (\<lambda>c. c \<noteq> 46) (rev name)
      in if length afterDot = length name \<or> Suc (length afterDot) = length name then []
         else 46 # rev afterDot)"

definition SUPPORTED_EXTENSIONS :: "jstring list" where
  "SUPPORTED_EXTENSIONS = [js ''.txt'', js ''.md'', js ''.markdown'']"

fun walkFiles :: "jstring list \<Rightarrow> fsnode \<Rightarrow> error + jstring list list"
  and walkEntries :: "jstring list \<Rightarrow> (jstring \<times> fsnode) list \<Rightarrow> error + jstring list list"
where
  "walkFiles dir (File content) = Inl (ReaddirFailed dir)"
| "walkFiles dir (Dir None) = Inl (ReaddirFailed dir)"
| "walkFiles dir (Dir (Some entries)) = walkEntries dir entries"
| "walkEntries dir [] = Inr []"
| "walkEntries dir ((name, File content) # rest) =
     (case walkEntries dir rest of
        Inl err \<Rightarrow> Inl err
      | Inr files \<Rightarrow>
          Inr ((if toLowerCase (extname name) \<in> set SUPPORTED_EXTENSIONS
                then [dir @ [name]] else []) @ files))"
| "walkEntries dir ((name, Dir entries) # rest) =
     (case walkFiles (dir @ [name]) (Dir entries) of
        Inl err \<Rightarrow> Inl err
      | Inr nested \<Rightarrow>
          (case walkEntries dir rest of
             Inl err \<Rightarrow> Inl err
           | Inr files \<Rightarrow> Inr (nested @ files)))"

text \<open>The node at a path below a node, and \<open>fs.readFile(path).catch(() => '')\<close>.\<close>

fun nodeAt :: "fsnode \<Rightarrow> jstring list \<Rightarrow> fsnode option" where
  "nodeAt node [] = Some node"
| "nodeAt (File content) (name # names) = None"
| "nodeAt (Dir None) (name # names) = None"
| "nodeAt (Dir (Some entries)) (name # names) =
     (case map_of entries name of None \<Rightarrow> None | Some node \<Rightarrow> nodeAt node names)"

definition readFileOrEmpty :: "world \<Rightarrow> jstring list \<Rightarrow> jstring" where
  "readFileOrEmpty w filePath =
     (case rootNode w of
        None \<Rightarrow> []
      | Some node \<Rightarrow>
          (case nodeAt node (drop (length (rootRelative w)) filePath) of
             Some (File (Some content)) \<Rightarrow> content
           | _ \<Rightarrow> []))"

record cache =
  loadedAt :: int
  chunks :: "chunk list"
  files :: nat
  lastError :: "jstring option"
  dfMap :: "(jstring \<times> nat) list"
  avgTokens :: real

text \<open>The \<open>cache\<close> of lines 20 to 27.\<close>

definition initialCache :: cache where
  "initialCache = \<lparr> loadedAt = 0, chunks = [], files = 0, lastError = None, dfMap = [],
     avgTokens = 0 \<rparr>"

definition buildIndexStats :: "chunk list \<Rightarrow> (jstring \<times> nat) list \<times> real" where
  "buildIndexStats cs =
     (let totalTokens = fold (\<lambda>c total. total + tokensCount c) cs 0;
          df = fold (\<lambda>c m. fold bump (tokenSet c) m) cs []
      in (df, if length cs > 0 then real totalTokens / real (length cs) else 0))"

text \<open>The body of the loop over the files of \<open>rebuildCache\<close>: the chunks of one file.
  \<open>splitIntoChunks\<close> returns for every positive \<open>maxChars\<close> (lemma
  \<open>splitIntoChunks_returns\<close>), and \<open>RAG_CHUNK_SIZE\<close> is at least 200.\<close>

definition fileChunks :: "procEnv \<Rightarrow> world \<Rightarrow> jstring list \<Rightarrow> chunk list" where
  "fileChunks e w filePath =
     (let content = readFileOrEmpty w filePath;
          relative = join (js ''/'') filePath;
          parts = (case splitIntoChunks content (RAG_CHUNK_SIZE e) of
                     None \<Rightarrow> [] | Some ps \<Rightarrow> ps)
      in List.map_filter (\<lambda>(part, index). createChunk e relative part index)
           (zip parts [0 ..< length parts]))"

text \<open>\<open>rebuildCache\<close> at the time \<open>now\<close>: the new value of \<open>cache\<close>, or the exception
  that leaves \<open>cache\<close> as it was.\<close>

definition rebuildCache :: "procEnv \<Rightarrow> world \<Rightarrow> int \<Rightarrow> error + cache" where
  "rebuildCache e w now =
     (if \<not> RAG_ENABLED e
      then Inr \<lparr> loadedAt = now, chunks = [], files = 0, lastError = None, dfMap = [],
                 avgTokens = 0 \<rparr>
      else (case rootNode w of
              None \<Rightarrow>
                Inr \<lparr> loadedAt = now, chunks = [], files = 0,
                      lastError = Some (js ''knowledge directory not found: '' @ knowledgeRoot w),
                      dfMap = [], avgTokens = 0 \<rparr>
            | Some node \<Rightarrow>
                (case walkFiles (rootRelative w) node of
                   Inl err \<Rightarrow> Inl err
                 | Inr filePaths \<Rightarrow>
                     (let cs = concat (map (fileChunks e w) filePaths);
                          stats = buildIndexStats cs
                      in Inr \<lparr> loadedAt = now, chunks = cs, files = length filePaths,
                                lastError = None, dfMap = fst stats,
                                avgTokens = snd stats \<rparr>))))"

definition ensureCache :: "procEnv \<Rightarrow> world \<Rightarrow> int \<Rightarrow> cache \<Rightarrow> error + cache" where
  "ensureCache e w now c =
     (if now - loadedAt c < RAG_CACHE_TTL_MS e then Inr c else rebuildCache e w now)"

text \<open>The variable \<open>cache\<close> after a call of \<open>ensureCache\<close>.\<close>

definition cacheAfter :: "procEnv \<Rightarrow> world \<Rightarrow> int \<Rightarrow> cache \<Rightarrow> cache" where
  "cacheAfter e w now c = (case ensureCache e w now c of Inl err \<Rightarrow> c | Inr c' \<Rightarrow> c')"

subsection \<open>Scorer (lines 297 to 373)\<close>

text \<open>The summand that one query token adds in the loop of \<open>bm25Score\<close>, for a token
  that occurs \<open>tf\<close> times in a chunk of \<open>chunkLen\<close> tokens.\<close>

definition bm25Term :: "procEnv \<Rightarrow> cache \<Rightarrow> nat \<Rightarrow> jstring \<Rightarrow> nat \<Rightarrow> real" where
  "bm25Term e state chunkLen token tf =
     (let totalDocs = max 1 (real (length (chunks state)));
          avgLen = max 1 (avgTokens state);
          df = real (getOr0 (dfMap state) token);
          idf = ln (1 + (totalDocs - df + 1 / 2) / (df + 1 / 2));
          numerator = real tf * (RAG_BM25_K1 e + 1);
          denominator = real tf + RAG_BM25_K1 e *
            (1 - RAG_BM25_B e + (RAG_BM25_B e * real chunkLen) / avgLen)
      in (idf * numerator * tokenWeight token) / max denominator (1 / 10 ^ 9))"

definition bm25Score :: "procEnv \<Rightarrow> chunk \<Rightarrow> queryFeatures \<Rightarrow> cache \<Rightarrow> real" where
  "bm25Score e c qf state =
     fold (\<lambda>token sc.
             let tf = getOr0 (tokenFreq c) token
             in if tf \<le> 0 then sc else sc + bm25Term e state (tokensCount c) token tf)
          (uniqueTokens qf) 0"

definition phraseScore :: "chunk \<Rightarrow> queryFeatures \<Rightarrow> real" where
  "phraseScore c qf =
     (let sc = fold (\<lambda>p sc.
                 if length p < 3 then sc
                 else if includesStr (lowerText c) p
                      then sc + (if 8 \<le> length p then 3 / 2 else 7 / 10)
                      else sc)
               (phrases qf) 0
      in if 8 \<le> length (qtext qf) \<and> includesStr (lowerText c) (qtext qf) then sc + 2 else sc)"

definition ngramSimilarity :: "chunk \<Rightarrow> queryFeatures \<Rightarrow> real" where
  "ngramSimilarity c qf =
     (if length (ngrams qf) = 0 \<or> length (ngramSet c) = 0 then 0
      else let overlap = intersectCount (ngrams qf) (ngramSet c)
           in if overlap = 0 then 0
              else real overlap / sqrt (real (length (ngrams qf) * length (ngramSet c))))"

definition queryCoverage :: "chunk \<Rightarrow> queryFeatures \<Rightarrow> real" where
  "queryCoverage c qf =
     (if length (uniqueTokens qf) = 0 then 0
      else real (length (filter (\<lambda>token. token \<in> set (tokenSet c)) (uniqueTokens qf)))
           / real (length (uniqueTokens qf)))"

text \<open>\<open>Number(x.toFixed(4))\<close>: the nearest multiple of 1/10000, the larger one at a tie.\<close>

definition toFixed4 :: "real \<Rightarrow> real" where
  "toFixed4 x = real_of_int (round (x * 10000)) / 10000"

record metrics =
  bm25 :: real
  phrase :: real
  ngram :: real
  coverage :: real

definition scoreChunk :: "procEnv \<Rightarrow> chunk \<Rightarrow> queryFeatures \<Rightarrow> cache \<Rightarrow> real \<times> metrics" where
  "scoreChunk e c qf state =
     (let b = bm25Score e c qf state;
          p = phraseScore c qf;
          n = ngramSimilarity c qf;
          v = queryCoverage c qf
      in (b + p + n * (11 / 5) + v * (6 / 5),
          \<lparr> bm25 = toFixed4 b, phrase = toFixed4 p, ngram = toFixed4 n,
            coverage = toFixed4 v \<rparr>))"

subsection \<open>MMR selector (lines 375 to 417)\<close>

text \<open>A scored candidate \<open>{...chunk, score, metrics}\<close>.\<close>

record scored =
  chunkOf :: chunk
  score :: real
  metrics :: metrics

text \<open>The two conditional expressions of \<open>chunkSimilarity\<close>: the number of common
  elements over the size of the larger set, and 0 when one of the sets is empty.\<close>

definition setOverlap :: "'a list \<Rightarrow> 'a list \<Rightarrow> real" where
  "setOverlap setA setB =
     (if length setA \<noteq> 0 \<and> length setB \<noteq> 0
      then real (intersectCount setA setB) / real (max (length setA) (length setB))
      else 0)"

definition chunkSimilarity :: "chunk \<Rightarrow> chunk \<Rightarrow> real" where
  "chunkSimilarity left right =
     (let tokenOverlap = setOverlap (tokenSet left) (tokenSet right);
          ngramOverlap = setOverlap (ngramSet left) (ngramSet right)
      in clamp01 (tokenOverlap * (11 / 20) + ngramOverlap * (9 / 20)))"

text \<open>\<open>Math.max(...candidates.map((item) => item.score), 1)\<close>.\<close>

definition maxRelevanceOf :: "scored list \<Rightarrow> real" where
  "maxRelevanceOf candidates = fold max (map score candidates) 1"

text \<open>The value \<open>mmrScore\<close> that the inner loop computes for one candidate.\<close>

definition mmrScore :: "procEnv \<Rightarrow> real \<Rightarrow> scored list \<Rightarrow> scored \<Rightarrow> real" where
  "mmrScore e maxRelevance selected candidate =
     (let relevance = score candidate / maxRelevance;
          redundancy = fold (\<lambda>chosen r. max r (chunkSimilarity (chunkOf candidate) (chunkOf chosen)))
                         selected 0
      in RAG_MMR_LAMBDA e * relevance - (1 - RAG_MMR_LAMBDA e) * redundancy)"

text \<open>The inner loop, from \<open>index\<close> on: \<open>(bestIndex, bestScore)\<close>, where \<open>None\<close> is the
  \<open>-Infinity\<close> that \<open>bestScore\<close> starts with.\<close>

fun bestFrom :: "(scored \<Rightarrow> real) \<Rightarrow> scored list \<Rightarrow> nat \<Rightarrow> nat \<times> real option \<Rightarrow> nat \<times> real option" where
  "bestFrom f [] index best = best"
| "bestFrom f (candidate # rest) index best =
     (if (case snd best of None \<Rightarrow> True | Some bestScore \<Rightarrow> f candidate > bestScore)
      then bestFrom f rest (index + 1) (index, Some (f candidate))
      else bestFrom f rest (index + 1) best)"

definition bestIndexOf :: "(scored \<Rightarrow> real) \<Rightarrow> scored list \<Rightarrow> nat" where
  "bestIndexOf f remaining = fst (bestFrom f remaining 0 (0, None))"

text \<open>\<open>xs.splice(i, 1)\<close>.\<close>

definition splice1 :: "'a list \<Rightarrow> nat \<Rightarrow> 'a list" where
  "splice1 xs i = take i xs @ drop (Suc i) xs"

text \<open>The \<open>while\<close> loop of \<open>applyMMR\<close>.\<close>

function mmrLoop :: "procEnv \<Rightarrow> real \<Rightarrow> nat \<Rightarrow> scored list \<Rightarrow> scored list \<Rightarrow> scored list" where
  "mmrLoop e maxRelevance topK selected remaining =
     (if length selected < topK \<and> length remaining > 0
      then let bestIndex = bestIndexOf (mmrScore e maxRelevance selected) remaining
           in mmrLoop e maxRelevance topK (selected @ [remaining ! bestIndex])
                (splice1 remaining bestIndex)
      else selected)"
  by pat_completeness auto
termination
proof (relation "measure (\<lambda>(e, maxRelevance, topK, selected, remaining). length remaining)")
  fix e :: procEnv and maxRelevance :: real and topK :: nat
    and selected remaining :: "scored list" and bestIndex :: nat
  assume run: "length selected < topK \<and> 0 < length remaining"
    and best: "bestIndex = bestIndexOf (mmrScore e maxRelevance selected) remaining"
  have bound: "fst (bestFrom f xs i b) < i + length xs \<or> fst (bestFrom f xs i b) = fst b"
    for f :: "scored \<Rightarrow> real" and xs i b
  proof (induction xs arbitrary: i b)
    case Nil
    show ?case by simp
  next
    case (Cons x xs)
    show ?case
      using Cons [of "Suc i" "(i, Some (f x))"] Cons [of "Suc i" b]
      by (auto split: option.splits)
  qed
  have "bestIndex < length remaining"
    using bound [of "mmrScore e maxRelevance selected" remaining 0 "(0, None)"] run best
    by (auto simp: bestIndexOf_def)
  then show "((e, maxRelevance, topK, selected @ [remaining ! bestIndex],
               splice1 remaining bestIndex),
              (e, maxRelevance, topK, selected, remaining))
             \<in> measure (\<lambda>(e, maxRelevance, topK, selected, remaining). length remaining)"
    by (simp add: splice1_def)
qed simp

declare mmrLoop.simps [simp del]

text \<open>\<open>xs.sort((a, b) => b.score - a.score)\<close>: a stable sort, larger scores first.\<close>

definition sortByScoreDesc :: "scored list \<Rightarrow> scored list" where
  "sortByScoreDesc xs = sort_key (\<lambda>x. - score x) xs"

definition applyMMR :: "procEnv \<Rightarrow> scored list \<Rightarrow> nat \<Rightarrow> scored list" where
  "applyMMR e candidates topK =
     (if length candidates \<le> topK then candidates
      else sortByScoreDesc (mmrLoop e (maxRelevanceOf candidates) topK [] candidates))"

subsection \<open>Context assembler and \<open>retrieveKnowledge\<close> (lines 419 to 536)\<close>

text \<open>The \<open>block\<close> that the loop of \<open>buildContextMessage\<close> renders for the match at
  \<open>index\<close>.\<close>

definition renderBlock :: "nat \<Rightarrow> scored \<Rightarrow> jstring" where
  "renderBlock index item =
     (let header = js ''['' @ showNat (index + 1) @ js ''] Source: '' @ source (chunkOf item) @ [10];
          body = ctext (chunkOf item)
      in header @ body @ [10])"

text \<open>The loop of \<open>buildContextMessage\<close> from \<open>index\<close> on, with \<open>consumed\<close> characters
  used so far: the blocks pushed to \<open>sections\<close>.\<close>

fun sectionsFrom :: "nat \<Rightarrow> nat \<Rightarrow> nat \<Rightarrow> scored list \<Rightarrow> jstring list" where
  "sectionsFrom maxChars index consumed [] = []"
| "sectionsFrom maxChars index consumed (item # rest) =
     (let block = renderBlock index item
      in if consumed + length block > maxChars then []
         else block # sectionsFrom maxChars (index + 1) (consumed + length block) rest)"

definition preambleLines :: "jstring list" where
  "preambleLines =
     [js ''You have access to internal knowledge snippets below.'',
      js ''Use them when relevant. If used, cite source path in plain text like [knowledge/...].'',
      []]"

definition buildContextMessage :: "procEnv \<Rightarrow> scored list \<Rightarrow> jstring option" where
  "buildContextMessage e ms =
     (if length ms = 0 then None
      else let sections = sectionsFrom (RAG_CONTEXT_MAX_CHARS e) 0 0 ms
           in if length sections = 0 then None
              else Some (join [10] (preambleLines @ sections)))"

record match =
  m_source :: jstring
  m_text :: jstring
  m_score :: real
  m_metrics :: metrics

record retrieval =
  matches :: "match list"
  citations :: "jstring list"
  contextMessage :: "jstring option"

definition noMatches :: retrieval where
  "noMatches = \<lparr> matches = [], citations = [], contextMessage = None \<rparr>"

text \<open>\<open>retrieveKnowledge(query)\<close> at the time \<open>now\<close>, with \<open>c\<close> the value of the variable
  \<open>cache\<close> before the call (\<open>cacheAfter\<close> is its value afterwards).\<close>

definition retrieveKnowledge ::
  "procEnv \<Rightarrow> world \<Rightarrow> int \<Rightarrow> cache \<Rightarrow> jstring \<Rightarrow> error + retrieval" where
  "retrieveKnowledge e w now c query =
     (let safeQuery = trim query
      in if \<not> RAG_ENABLED e \<or> safeQuery = [] then Inr noMatches
         else (case ensureCache e w now c of
                 Inl err \<Rightarrow> Inl err
               | Inr state \<Rightarrow>
                   if length (chunks state) = 0 then Inr noMatches
                   else let qf = buildQueryFeatures e safeQuery
                        in if length (uniqueTokens qf) = 0 then Inr noMatches
                           else let candidateLimit =
                                      min (length (chunks state))
                                        (max (RAG_TOP_K e) (RAG_TOP_K e * RAG_CANDIDATE_MULTIPLIER e));
                                    scoredAll =
                                      map (\<lambda>ch. let r = scoreChunk e ch qf state
                                                in \<lparr> chunkOf = ch, score = fst r, metrics = snd r \<rparr>)
                                        (chunks state);
                                    pool = take candidateLimit
                                             (sortByScoreDesc
                                                (filter (\<lambda>item. score item \<ge> RAG_MIN_SCORE e) scoredAll));
                                    ranked = applyMMR e pool (RAG_TOP_K e)
                                in Inr \<lparr> matches =
                                           map (\<lambda>item. \<lparr> m_source = source (chunkOf item),
                                                          m_text = ctext (chunkOf item),
                                                          m_score = toFixed4 (score item),
                                                          m_metrics = metrics item \<rparr>) ranked,
                                         citations = setOf (map (\<lambda>item. source (chunkOf item)) ranked),
                                         contextMessage = buildContextMessage e ranked \<rparr>))"

text \<open>The fields of \<open>getRagStatus()\<close> that come from the cache.\<close>

record ragStatus =
  st_enabled :: bool
  st_files :: nat
  st_chunks :: nat
  st_lastError :: "jstring option"

definition getRagStatus :: "procEnv \<Rightarrow> world \<Rightarrow> int \<Rightarrow> cache \<Rightarrow> error + ragStatus" where
  "getRagStatus e w now c =
     (case ensureCache e w now c of
        Inl err \<Rightarrow> Inl err
      | Inr state \<Rightarrow>
          Inr \<lparr> st_enabled = RAG_ENABLED e, st_files = files state,
                st_chunks = length (chunks state), st_lastError = lastError state \<rparr>)"

subsection \<open>What every snapshot satisfies\<close>

text \<open>A chunk as \<open>createChunk\<close> builds it: its token set is the key sequence of its
  frequency map, without repetition, and it counts at least one token. A snapshot as
  \<open>rebuildCache\<close> builds it: such chunks, with the statistics of \<open>buildIndexStats\<close>.\<close>

definition chunk_ok :: "chunk \<Rightarrow> bool" where
  "chunk_ok ch \<longleftrightarrow>
     map fst (tokenFreq ch) = tokenSet ch \<and> distinct (tokenSet ch) \<and> 1 \<le> tokensCount ch"

definition snapshot_ok :: "cache \<Rightarrow> bool" where
  "snapshot_ok c \<longleftrightarrow>
     list_all chunk_ok (chunks c) \<and> dfMap c = fst (buildIndexStats (chunks c)) \<and>
     avgTokens c = snd (buildIndexStats (chunks c))"

text \<open>A non-empty string without white space at either end: \<open>trim\<close> leaves it as it
  is.\<close>

definition isTrimmed :: "jstring \<Rightarrow> bool" where
  "isTrimmed s \<longleftrightarrow> s \<noteq> [] \<and> \<not> isSpace (hd s) \<and> \<not> isSpace (last s)"

text \<open>A string without a blank line: no two line feeds in a row.\<close>

definition noBlankLine :: "jstring \<Rightarrow> bool" where
  "noBlankLine s \<longleftrightarrow> successively (\<lambda>a b. \<not> (a = 10 \<and> b = 10)) s"

section \<open>Concrete inputs\<close>

text \<open>The equations that evaluate the model on a concrete input.\<close>

lemmas string_defs =
  js_def isSpace_def isWord_def isCJK_def isTerminator_def trim_def lowerChar_def
  toLowerCase_def slice_def stripSpaces_def matchRuns_def showNat.simps

lemmas config_defs =
  orDefault_def RAG_ENABLED_def RAG_TOP_K_def RAG_MIN_SCORE_def RAG_CHUNK_SIZE_def
  RAG_CONTEXT_MAX_CHARS_def RAG_CACHE_TTL_MS_def RAG_BM25_K1_def RAG_BM25_B_def
  RAG_CANDIDATE_MULTIPLIER_def RAG_MMR_LAMBDA_def RAG_NGRAM_SIZE_def defaultEnv_def

lemmas chunk_defs =
  tokenize_def blockTokens_def buildCharNgrams_def getOr0_def bump_def createChunk_def
  paragraphsOf_def paragraphStep_def sentenceStep_def pushCurrent_def splitIntoChunks_def

lemmas index_defs =
  extname_def SUPPORTED_EXTENSIONS_def readFileOrEmpty_def buildIndexStats_def
  fileChunks_def rebuildCache_def ensureCache_def

text \<open>A knowledge directory with the one file \<open>a.md\<close>, and the snapshot built from it.\<close>

definition helloWorld :: world where
  "helloWorld = \<lparr> rootNode = Some (Dir (Some [(js ''a.md'', File (Some (js ''Hello world'')))])),
     knowledgeRoot = js ''/srv/knowledge'', rootRelative = [js ''knowledge''] \<rparr>"

definition helloChunk :: chunk where
  "helloChunk = \<lparr> cid = js ''knowledge/a.md#0'', source = js ''knowledge/a.md'',
     ctext = js ''Hello world'', tokensCount = 2,
     tokenFreq = [(js ''hello'', 1), (js ''world'', 1)],
     tokenSet = [js ''hello'', js ''world''],
     ngramSet = [js ''hel'', js ''ell'', js ''llo'', js ''low'', js ''owo'', js ''wor'',
                 js ''orl'', js ''rld''],
     lowerText = js ''hello world'' \<rparr>"

definition helloCache :: cache where
  "helloCache = \<lparr> loadedAt = 7, chunks = [helloChunk], files = 1, lastError = None,
     dfMap = [(js ''hello'', 1), (js ''world'', 1)], avgTokens = 2 \<rparr>"

text \<open>A knowledge directory with a subdirectory that cannot be listed, and a
  knowledge directory that does not exist.\<close>

definition lockedWorld :: world where
  "lockedWorld = \<lparr> rootNode = Some (Dir (Some [(js ''a.md'', File (Some (js ''Hello world''))),
                                                  (js ''private'', Dir None)])),
     knowledgeRoot = js ''/srv/knowledge'', rootRelative = [js ''knowledge''] \<rparr>"

definition missingWorld :: world where
  "missingWorld = \<lparr> rootNode = None, knowledgeRoot = js ''/srv/knowledge'',
     rootRelative = [js ''knowledge''] \<rparr>"


text \<open>The instruction lines in front of the first block of a context message.\<close>

definition contextPreamble :: jstring where
  "contextPreamble = join [10] preambleLines @ [10]"

text \<open>An environment with a context budget of 800 characters, and two matches, from
  two files with the same text of 372 characters, whose blocks are 400 characters
  each.\<close>

definition env800 :: procEnv where
  "env800 = defaultEnv \<lparr> E_RAG_CONTEXT_MAX_CHARS := Some 800 \<rparr>"

definition longText :: jstring where
  "longText = replicate 372 97"

definition longItemA :: scored where
  "longItemA = \<lparr> chunkOf = \<lparr> cid = js ''knowledge/a.md#0'', source = js ''knowledge/a.md'',
       ctext = longText, tokensCount = 1, tokenFreq = [(longText, 1)], tokenSet = [longText],
       ngramSet = [js ''aaa''], lowerText = longText \<rparr>,
     score = 1,
     metrics = \<lparr> bm25 = 1, phrase = 0, ngram = 0, coverage = 0 \<rparr> \<rparr>"

definition longItemB :: scored where
  "longItemB = \<lparr> chunkOf = \<lparr> cid = js ''knowledge/b.md#0'', source = js ''knowledge/b.md'',
       ctext = longText, tokensCount = 1, tokenFreq = [(longText, 1)], tokenSet = [longText],
       ngramSet = [js ''aaa''], lowerText = longText \<rparr>,
     score = 1,
     metrics = \<lparr> bm25 = 1, phrase = 0, ngram = 0, coverage = 0 \<rparr> \<rparr>"

text \<open>The chunks of the texts \<open>ab cd\<close> and \<open>cd ef\<close>, and three scored candidates.\<close>

definition chunkAbCd :: chunk where
  "chunkAbCd = \<lparr> cid = js ''knowledge/b.md#0'', source = js ''knowledge/b.md'',
     ctext = js ''ab cd'', tokensCount = 2, tokenFreq = [(js ''ab'', 1), (js ''cd'', 1)],
     tokenSet = [js ''ab'', js ''cd''], ngramSet = [js ''abc'', js ''bcd''],
     lowerText = js ''ab cd'' \<rparr>"

definition chunkCdEf :: chunk where
  "chunkCdEf = \<lparr> cid = js ''knowledge/c.md#0'', source = js ''knowledge/c.md'',
     ctext = js ''cd ef'', tokensCount = 2, tokenFreq = [(js ''cd'', 1), (js ''ef'', 1)],
     tokenSet = [js ''cd'', js ''ef''], ngramSet = [js ''cde'', js ''def''],
     lowerText = js ''cd ef'' \<rparr>"

definition noMetrics :: metrics where
  "noMetrics = \<lparr> bm25 = 0, phrase = 0, ngram = 0, coverage = 0 \<rparr>"

definition itemLow :: scored where
  "itemLow = \<lparr> chunkOf = helloChunk, score = 1, metrics = noMetrics \<rparr>"

definition itemHigh :: scored where
  "itemHigh = \<lparr> chunkOf = chunkAbCd, score = 3, metrics = noMetrics \<rparr>"

definition itemMid :: scored where
  "itemMid = \<lparr> chunkOf = chunkCdEf, score = 2, metrics = noMetrics \<rparr>"

text \<open>An environment with \<open>RAG_MMR_LAMBDA = 1\<close>.\<close>

definition envLambda1 :: procEnv where
  "envLambda1 = defaultEnv \<lparr> E_RAG_MMR_LAMBDA := Some 1 \<rparr>"

subsection \<open>The similarity as the specification words it\<close>

text \<open>The specification calls the two overlaps of \<open>chunkSimilarity\<close> Jaccard
  similarities: the size of the intersection over the size of the union.\<close>

definition spec_jaccard :: "'a set \<Rightarrow> 'a set \<Rightarrow> real" where
  "spec_jaccard A B = (if A \<union> B = {} then 0 else real (card (A \<inter> B)) / real (card (A \<union> B)))"

definition spec_similarity :: "chunk \<Rightarrow> chunk \<Rightarrow> real" where
  "spec_similarity left right =
     clamp01 (11 / 20 * spec_jaccard (set (tokenSet left)) (set (tokenSet right)) +
              9 / 20 * spec_jaccard (set (ngramSet left)) (set (ngramSet right)))"

text \<open>The chunk of \<open>helloCache\<close> with one more occurrence of \<open>hello\<close> counted, and the
  features of a query.\<close>

definition helloChunkTwice :: chunk where
  "helloChunkTwice = helloChunk \<lparr> tokenFreq := [(js ''hello'', 2), (js ''world'', 1)] \<rparr>"

definition helloQuery :: queryFeatures where
  "helloQuery = \<lparr> qtext = js ''hello'', uniqueTokens = [js ''hello''],
     ngrams = [js ''hel'', js ''ell'', js ''llo''], phrases = [js ''hello''] \<rparr>"

text \<open>A line of 201 characters without a sentence terminator: 199 times \<open>a\<close>, a space
  and \<open>b\<close>.\<close>

definition longLine :: jstring where
  "longLine = replicate 199 97 @ [32, 98]"
section \<open>The concrete inputs, evaluated\<close>

lemma hello_createChunk:
  "createChunk defaultEnv (js ''knowledge/a.md'') (js ''Hello world'') 0 = Some helloChunk"
  by (simp add: helloChunk_def string_defs config_defs chunk_defs)

lemma hello_rebuildCache: "rebuildCache defaultEnv helloWorld 7 = Inr helloCache"
  by (simp add: helloWorld_def helloCache_def helloChunk_def string_defs config_defs
        chunk_defs index_defs)

lemma abcd_createChunk:
  "createChunk defaultEnv (js ''knowledge/b.md'') (js ''ab cd'') 0 = Some chunkAbCd"
  "createChunk defaultEnv (js ''knowledge/c.md'') (js ''cd ef'') 0 = Some chunkCdEf"
  by (simp_all add: chunkAbCd_def chunkCdEf_def string_defs config_defs chunk_defs Let_def)

section \<open>Sets and maps of the source\<close>

lemma setOf_set [simp]: "set (setOf xs) = set xs"
  by (induction xs) auto

lemma setOf_distinct [simp]: "distinct (setOf xs)"
  by (induction xs) auto

lemma getOr0_Nil: "getOr0 [] t = 0"
  by (simp add: getOr0_def)

lemma getOr0_bump: "getOr0 (bump k m) t = (if t = k then getOr0 m k + 1 else getOr0 m t)"
  by (simp add: getOr0_def bump_def update_conv')

lemma keys_bump: "set (map fst (bump k m)) = insert k (set (map fst m))"
  by (simp add: bump_def dom_update)

lemma distinct_bump: "distinct (map fst m) \<Longrightarrow> distinct (map fst (bump k m))"
  by (simp add: bump_def distinct_update)

lemma getOr0_fold_bump: "getOr0 (fold bump ts m) t = getOr0 m t + count_list ts t"
  by (induction ts arbitrary: m) (auto simp: getOr0_bump)

lemma keys_fold_bump: "set (map fst (fold bump ts m)) = set (map fst m) \<union> set ts"
  by (induction ts arbitrary: m) (auto simp: keys_bump simp del: set_map)

lemma distinct_fold_bump: "distinct (map fst m) \<Longrightarrow> distinct (map fst (fold bump ts m))"
  by (induction ts arbitrary: m) (auto simp: distinct_bump simp del: distinct_map)

lemma map_filter_mem:
  "y \<in> set (List.map_filter f xs) \<Longrightarrow> \<exists>x \<in> set xs. f x = Some y"
  by (induction xs) (auto split: option.splits)

text \<open>\<open>intersectCount\<close> counts the common elements, whichever set the loop runs over.\<close>

lemma intersectCount_le_min: "intersectCount A B \<le> min (length A) (length B)"
proof -
  have "length (filter P xs) \<le> length xs" for P and xs :: "'a list"
    by simp
  then show ?thesis
    unfolding intersectCount_def Let_def by (auto simp: min_def intro: order_trans)
qed

lemma intersectCount_card:
  assumes "distinct A" "distinct B"
  shows "intersectCount A B = card (set A \<inter> set B)"
proof -
  have f: "length (filter (\<lambda>x. x \<in> set ys) xs) = card (set xs \<inter> set ys)"
    if "distinct xs" for xs ys :: "'a list"
  proof -
    have "set (filter (\<lambda>x. x \<in> set ys) xs) = set xs \<inter> set ys" by auto
    moreover have "distinct (filter (\<lambda>x. x \<in> set ys) xs)" using that by simp
    ultimately show ?thesis by (metis distinct_card)
  qed
  show ?thesis
    using f [OF assms(1), of B] f [OF assms(2), of A]
    by (auto simp: intersectCount_def Let_def Int_commute)
qed

text \<open>\<open>join\<close>.\<close>

lemma length_join:
  "length (join sep xs) = sum_list (map length xs) + length sep * (length xs - 1)"
  by (induction sep xs rule: join.induct) simp_all

lemma join_append:
  "xs \<noteq> [] \<Longrightarrow> ys \<noteq> [] \<Longrightarrow> join sep (xs @ ys) = join sep xs @ sep @ join sep ys"
  by (induction sep xs rule: join.induct) (auto simp: neq_Nil_conv)

section \<open>Chunks of a snapshot\<close>

lemma createChunk_Some:
  assumes "createChunk e src txt i = Some ch"
  shows "ctext ch = trim (collapseSpaces txt) \<and> tokenize (ctext ch) \<noteq> [] \<and>
         tokensCount ch = length (tokenize (ctext ch)) \<and>
         set (tokenSet ch) = set (tokenize (ctext ch)) \<and> distinct (tokenSet ch) \<and>
         (\<forall>t. getOr0 (tokenFreq ch) t = count_list (tokenize (ctext ch)) t)"
proof -
  let ?n = "trim (collapseSpaces txt)"
  from assms have ne: "?n \<noteq> []" "tokenize ?n \<noteq> []"
    by (auto simp: createChunk_def Let_def split: if_splits)
  with assms have ch: "ch = \<lparr> cid = src @ js ''#'' @ showNat i, source = src,
       ctext = ?n, tokensCount = length (tokenize ?n),
       tokenFreq = fold bump (tokenize ?n) [], tokenSet = map fst (fold bump (tokenize ?n) []),
       ngramSet = buildCharNgrams ?n (RAG_NGRAM_SIZE e), lowerText = toLowerCase ?n \<rparr>"
    by (simp add: createChunk_def Let_def)
  show ?thesis
    unfolding ch using ne
    by (simp add: keys_fold_bump distinct_fold_bump getOr0_fold_bump getOr0_Nil
             del: set_map distinct_map)
qed

lemma createChunk_None:
  "tokenize (trim (collapseSpaces txt)) = [] \<Longrightarrow> createChunk e src txt i = None"
  by (simp add: createChunk_def Let_def)

lemma fileChunks_created:
  assumes "ch \<in> set (fileChunks e w filePath)"
  shows "\<exists>src txt i. createChunk e src txt i = Some ch"
  using assms by (auto simp: fileChunks_def Let_def dest!: map_filter_mem)

lemma rebuildCache_created:
  assumes "rebuildCache e w now = Inr c" "ch \<in> set (chunks c)"
  shows "\<exists>src txt i. createChunk e src txt i = Some ch"
proof (cases "RAG_ENABLED e")
  case False
  with assms show ?thesis by (auto simp: rebuildCache_def)
next
  case True
  show ?thesis
  proof (cases "rootNode w")
    case None
    with True assms show ?thesis by (auto simp: rebuildCache_def)
  next
    case (Some node)
    with True assms obtain filePaths where "walkFiles (rootRelative w) node = Inr filePaths"
      and "chunks c = concat (map (fileChunks e w) filePaths)"
      by (auto simp: rebuildCache_def Let_def split: sum.splits)
    with assms(2) obtain p where "ch \<in> set (fileChunks e w p)" by auto
    then show ?thesis by (rule fileChunks_created)
  qed
qed

text \<open>
  Claim C9. Every chunk of a snapshot that \<open>rebuildCache\<close> produces has at least one
  token: its \<open>tokensCount\<close> is at least 1 and its \<open>tokenSet\<close> is not empty (they are the
  number and the set of the tokens of its text). A span without a token is discarded
  at creation: \<open>createChunk\<close> returns \<open>null\<close> for it.
\<close>

theorem snapshot_chunks_have_tokens:
  "(rebuildCache e w now = Inr c \<and> ch \<in> set (chunks c) \<longrightarrow>
      1 \<le> tokensCount ch \<and> tokenSet ch \<noteq> [] \<and>
      tokensCount ch = length (tokenize (ctext ch)) \<and>
      set (tokenSet ch) = set (tokenize (ctext ch))) \<and>
   (tokenize (trim (collapseSpaces txt)) = [] \<longrightarrow> createChunk e src txt i = None)"
proof (intro conjI impI)
  assume a: "rebuildCache e w now = Inr c \<and> ch \<in> set (chunks c)"
  then obtain src' txt' i' where "createChunk e src' txt' i' = Some ch"
    using rebuildCache_created by blast
  note f = createChunk_Some [OF this]
  from f have ne: "tokenize (ctext ch) \<noteq> []" by blast
  from f ne show "1 \<le> tokensCount ch" by (simp add: Suc_le_eq)
  from f ne show "tokenSet ch \<noteq> []" by (metis set_empty)
  from f show "tokensCount ch = length (tokenize (ctext ch))" by simp
  from f show "set (tokenSet ch) = set (tokenize (ctext ch))" by simp
next
  assume "tokenize (trim (collapseSpaces txt)) = []"
  then show "createChunk e src txt i = None" by (rule createChunk_None)
qed

theorem snapshot_chunks_have_tokens_witness:
  "rebuildCache defaultEnv helloWorld 7 = Inr helloCache \<and>
   helloChunk \<in> set (chunks helloCache) \<and>
   1 \<le> tokensCount helloChunk \<and> tokenSet helloChunk \<noteq> [] \<and>
   tokenize (trim (collapseSpaces (js '' ?! ''))) = [] \<and>
   createChunk defaultEnv (js ''knowledge/a.md'') (js '' ?! '') 0 = None"
proof -
  have h1: "rebuildCache defaultEnv helloWorld 7 = Inr helloCache \<and>
            helloChunk \<in> set (chunks helloCache)"
    by (simp add: hello_rebuildCache) (simp add: helloCache_def)
  have h2: "tokenize (trim (collapseSpaces (js '' ?! ''))) = []"
    by (simp add: string_defs chunk_defs)
  from snapshot_chunks_have_tokens
    [of defaultEnv helloWorld 7 helloCache helloChunk "js '' ?! ''" "js ''knowledge/a.md''" 0]
    h1 h2
  show ?thesis by blast
qed

section \<open>Range of the n-gram and coverage signals\<close>

lemma le_sqrt_of_le_both:
  assumes "n \<le> a" "n \<le> b"
  shows "real n \<le> sqrt (real (a * b))"
proof -
  have "n * n \<le> a * b" using assms by (rule mult_le_mono)
  then have "real (n * n) \<le> real (a * b)" by (simp only: of_nat_le_iff)
  then have "sqrt (real (n * n)) \<le> sqrt (real (a * b))" by (rule real_sqrt_le_mono)
  then show ?thesis by simp
qed

lemma intersectCount_le_sqrt:
  "real (intersectCount A B) \<le> sqrt (real (length A * length B))"
  using intersectCount_le_min [of A B] by (intro le_sqrt_of_le_both) simp_all

lemma ngramSimilarity_range: "0 \<le> ngramSimilarity c qf \<and> ngramSimilarity c qf \<le> 1"
proof (cases "length (ngrams qf) = 0 \<or> length (ngramSet c) = 0 \<or>
              intersectCount (ngrams qf) (ngramSet c) = 0")
  case True
  then show ?thesis by (auto simp: ngramSimilarity_def Let_def)
next
  case False
  then have pos: "0 < sqrt (real (length (ngrams qf) * length (ngramSet c)))"
    by simp
  have eq: "ngramSimilarity c qf = real (intersectCount (ngrams qf) (ngramSet c))
              / sqrt (real (length (ngrams qf) * length (ngramSet c)))"
    using False by (simp add: ngramSimilarity_def Let_def)
  show ?thesis
    unfolding eq using pos intersectCount_le_sqrt [of "ngrams qf" "ngramSet c"]
    by (simp add: divide_le_eq_1_pos)
qed

lemma queryCoverage_range: "0 \<le> queryCoverage c qf \<and> queryCoverage c qf \<le> 1"
proof -
  have "length (filter P xs) \<le> length xs" for P and xs :: "jstring list"
    by simp
  then show ?thesis
    by (auto simp: queryCoverage_def divide_le_eq_1_pos)
qed

text \<open>
  Claim C10. For every chunk and every query feature set, the n-gram similarity and the
  coverage lie in the interval from 0 to 1; the count of common n-grams is at most the
  square root of the product of the two set sizes; so the weighted contributions
  \<open>ngram * 2.2\<close> and \<open>coverage * 1.2\<close> to the combined score are at most 2.2 and 1.2.
\<close>

theorem signals_in_unit_interval:
  "0 \<le> ngramSimilarity c qf \<and> ngramSimilarity c qf \<le> 1 \<and>
   0 \<le> queryCoverage c qf \<and> queryCoverage c qf \<le> 1 \<and>
   real (intersectCount (ngrams qf) (ngramSet c))
     \<le> sqrt (real (length (ngrams qf) * length (ngramSet c))) \<and>
   0 \<le> ngramSimilarity c qf * (11 / 5) \<and> ngramSimilarity c qf * (11 / 5) \<le> 11 / 5 \<and>
   0 \<le> queryCoverage c qf * (6 / 5) \<and> queryCoverage c qf * (6 / 5) \<le> 6 / 5"
  using ngramSimilarity_range [of c qf] queryCoverage_range [of c qf]
    intersectCount_le_sqrt [of "ngrams qf" "ngramSet c"]
  by simp

theorem signals_in_unit_interval_witness:
  "0 \<le> ngramSimilarity helloChunk (buildQueryFeatures defaultEnv (js ''hello''))
   \<and> ngramSimilarity helloChunk (buildQueryFeatures defaultEnv (js ''hello'')) \<le> 1
   \<and> 0 \<le> queryCoverage helloChunk (buildQueryFeatures defaultEnv (js ''hello''))
   \<and> queryCoverage helloChunk (buildQueryFeatures defaultEnv (js ''hello'')) \<le> 1"
  using signals_in_unit_interval [of helloChunk "buildQueryFeatures defaultEnv (js ''hello'')"]
  by blast

section \<open>Queries that retrieve nothing\<close>

lemma all_dropWhile: "(\<forall>x \<in> set (dropWhile P s). P x) \<longleftrightarrow> (\<forall>x \<in> set s. P x)"
  by (induction s) auto

lemma trim_Nil_iff: "trim s = [] \<longleftrightarrow> (\<forall>ch \<in> set s. isSpace ch)"
  by (simp add: trim_def dropWhile_eq_Nil_conv all_dropWhile)

text \<open>
  Claim C8. For every query that is empty or only white space, for every query while
  retrieval is disabled, and for every query for which the snapshot that \<open>ensureCache\<close>
  serves has no chunks, \<open>retrieveKnowledge\<close> returns (it does not throw) the result with
  empty matches, empty citations and a null context message.
\<close>

theorem empty_query_or_index_gives_noMatches:
  "((\<not> RAG_ENABLED e \<or> query = [] \<or> (\<forall>ch \<in> set query. isSpace ch))
      \<longrightarrow> retrieveKnowledge e w now c query = Inr noMatches) \<and>
   (ensureCache e w now c = Inr state \<and> chunks state = []
      \<longrightarrow> retrieveKnowledge e w now c query = Inr noMatches) \<and>
   matches noMatches = [] \<and> citations noMatches = [] \<and> contextMessage noMatches = None"
proof (intro conjI impI)
  assume "\<not> RAG_ENABLED e \<or> query = [] \<or> (\<forall>ch \<in> set query. isSpace ch)"
  then have "\<not> RAG_ENABLED e \<or> trim query = []"
    using trim_Nil_iff [of query] by auto
  then show "retrieveKnowledge e w now c query = Inr noMatches"
    by (auto simp: retrieveKnowledge_def Let_def)
next
  assume "ensureCache e w now c = Inr state \<and> chunks state = []"
  then show "retrieveKnowledge e w now c query = Inr noMatches"
    by (simp add: retrieveKnowledge_def Let_def)
qed (simp_all add: noMatches_def)

lemma missing_ensureCache:
  "ensureCache defaultEnv missingWorld 20000 initialCache =
     Inr \<lparr> loadedAt = 20000, chunks = [], files = 0,
           lastError = Some (js ''knowledge directory not found: /srv/knowledge''),
           dfMap = [], avgTokens = 0 \<rparr>"
  by (simp add: missingWorld_def initialCache_def string_defs config_defs index_defs)

theorem empty_query_or_index_gives_noMatches_witness:
  "list_all isSpace (js ''   '') \<and>
   retrieveKnowledge defaultEnv helloWorld 7 helloCache (js ''   '') = Inr noMatches \<and>
   retrieveKnowledge defaultEnv missingWorld 20000 initialCache (js ''hello'') = Inr noMatches"
proof -
  have h1: "\<forall>ch \<in> set (js ''   ''). isSpace ch"
    by (simp add: js_def isSpace_def)
  note t = empty_query_or_index_gives_noMatches
  from t [of defaultEnv "js ''   ''" helloWorld 7 helloCache] h1
  have r1: "retrieveKnowledge defaultEnv helloWorld 7 helloCache (js ''   '') = Inr noMatches"
    by blast
  from t [of defaultEnv "js ''hello''" missingWorld 20000 initialCache
            "\<lparr> loadedAt = 20000, chunks = [], files = 0,
               lastError = Some (js ''knowledge directory not found: /srv/knowledge''),
               dfMap = [], avgTokens = 0 \<rparr>"] missing_ensureCache
  have r2: "retrieveKnowledge defaultEnv missingWorld 20000 initialCache (js ''hello'') = Inr noMatches"
    by simp
  from h1 r1 r2 show ?thesis by (simp add: list_all_iff)
qed

section \<open>Length of the context message\<close>

lemma sectionsFrom_budget:
  "sum_list (map length (sectionsFrom maxChars index consumed ms)) \<le> maxChars - consumed"
proof (induction ms arbitrary: index consumed)
  case Nil
  show ?case by simp
next
  case (Cons item rest)
  show ?case
    using Cons [of "index + 1" "consumed + length (renderBlock index item)"]
    by (auto simp: Let_def)
qed

lemma sectionsFrom_prefix:
  "sectionsFrom maxChars index consumed ms =
     take (length (sectionsFrom maxChars index consumed ms))
       (map (\<lambda>(i, item). renderBlock i item) (zip [index ..< index + length ms] ms))"
proof (induction ms arbitrary: index consumed)
  case Nil
  show ?case by simp
next
  case (Cons item rest)
  have u: "[index ..< index + length (item # rest)] = index # [index + 1 ..< (index + 1) + length rest]"
    by (simp add: upt_rec)
  show ?case
    unfolding u using Cons [of "index + 1" "consumed + length (renderBlock index item)"]
    by (simp add: Let_def)
qed

lemma buildContextMessage_Some:
  assumes "buildContextMessage e ms = Some out"
  shows "sectionsFrom (RAG_CONTEXT_MAX_CHARS e) 0 0 ms \<noteq> [] \<and>
         out = contextPreamble @ join [10] (sectionsFrom (RAG_CONTEXT_MAX_CHARS e) 0 0 ms)"
proof -
  let ?s = "sectionsFrom (RAG_CONTEXT_MAX_CHARS e) 0 0 ms"
  from assms have ne: "?s \<noteq> []" and out: "out = join [10] (preambleLines @ ?s)"
    by (auto simp: buildContextMessage_def Let_def split: if_splits)
  have "preambleLines \<noteq> []" by (simp add: preambleLines_def)
  then have "join [10] (preambleLines @ ?s) = join [10] preambleLines @ [10] @ join [10] ?s"
    using ne by (rule join_append)
  with ne out show ?thesis by (simp add: contextPreamble_def)
qed

text \<open>
  Claim C5, amended. The blocks are a prefix of the rendered matches, their lengths sum
  to at most \<open>RAG_CONTEXT_MAX_CHARS\<close>, and the message is the preamble followed by the
  blocks joined with one line feed each: its length is the length of the preamble plus
  the lengths of the blocks plus one for every block after the first. So the message
  is never longer than \<open>RAG_CONTEXT_MAX_CHARS\<close> plus the preamble plus the number of
  blocks minus one.
\<close>

theorem context_length_bound:
  "buildContextMessage e ms = Some out \<longrightarrow>
     (let sections = sectionsFrom (RAG_CONTEXT_MAX_CHARS e) 0 0 ms
      in out = contextPreamble @ join [10] sections \<and>
         sections = take (length sections)
                      (map (\<lambda>(i, item). renderBlock i item) (zip [0 ..< length ms] ms)) \<and>
         sum_list (map length sections) \<le> RAG_CONTEXT_MAX_CHARS e \<and>
         length out = length contextPreamble + sum_list (map length sections)
                        + (length sections - 1) \<and>
         length out \<le> RAG_CONTEXT_MAX_CHARS e + length contextPreamble + (length sections - 1))"
proof
  assume a: "buildContextMessage e ms = Some out"
  let ?s = "sectionsFrom (RAG_CONTEXT_MAX_CHARS e) 0 0 ms"
  note b = buildContextMessage_Some [OF a]
  have budget: "sum_list (map length ?s) \<le> RAG_CONTEXT_MAX_CHARS e"
    using sectionsFrom_budget [of "RAG_CONTEXT_MAX_CHARS e" 0 0 ms] by simp
  have pre: "?s = take (length ?s) (map (\<lambda>(i, item). renderBlock i item) (zip [0 ..< length ms] ms))"
    using sectionsFrom_prefix [of "RAG_CONTEXT_MAX_CHARS e" 0 0 ms] by simp
  have len: "length out = length contextPreamble + sum_list (map length ?s) + (length ?s - 1)"
    using b by (simp add: length_join)
  show "let sections = ?s
      in out = contextPreamble @ join [10] sections \<and>
         sections = take (length sections)
                      (map (\<lambda>(i, item). renderBlock i item) (zip [0 ..< length ms] ms)) \<and>
         sum_list (map length sections) \<le> RAG_CONTEXT_MAX_CHARS e \<and>
         length out = length contextPreamble + sum_list (map length sections)
                        + (length sections - 1) \<and>
         length out \<le> RAG_CONTEXT_MAX_CHARS e + length contextPreamble + (length sections - 1)"
    unfolding Let_def using b pre budget len by (intro conjI) simp_all
qed

lemma longItems_block:
  "length (renderBlock 0 longItemA) = 400" "length (renderBlock (Suc 0) longItemB) = 400"
  by (simp_all add: renderBlock_def longItemA_def longItemB_def longText_def js_def showNat.simps)

lemma two_sections:
  "sectionsFrom (RAG_CONTEXT_MAX_CHARS env800) 0 0 [longItemA, longItemB]
     = [renderBlock 0 longItemA, renderBlock (Suc 0) longItemB]"
  by (simp add: env800_def config_defs longItems_block Let_def)

lemma two_message:
  "buildContextMessage env800 [longItemA, longItemB]
     = Some (contextPreamble @ renderBlock 0 longItemA @ [10] @ renderBlock (Suc 0) longItemB)"
  unfolding buildContextMessage_def Let_def two_sections
  by (simp add: contextPreamble_def preambleLines_def)

text \<open>
  Claim C5 as stated fails: with a budget of 800 characters and two blocks of 400
  characters, the message is one character longer than the budget plus the preamble
  (the line feed that \<open>join\<close> puts between the two blocks).
\<close>

theorem context_exceeds_budget:
  "map_option length (buildContextMessage env800 [longItemA, longItemB])
     = Some (RAG_CONTEXT_MAX_CHARS env800 + length contextPreamble + 1)"
  by (simp add: two_message longItems_block) (simp add: env800_def config_defs)

theorem context_length_bound_witness:
  "buildContextMessage env800 [longItemA, longItemB]
     = Some (contextPreamble @ renderBlock 0 longItemA @ [10] @ renderBlock (Suc 0) longItemB) \<and>
   length (contextPreamble @ renderBlock 0 longItemA @ [10] @ renderBlock (Suc 0) longItemB)
     \<le> RAG_CONTEXT_MAX_CHARS env800 + length contextPreamble + (2 - 1)"
proof -
  from context_length_bound [of env800 "[longItemA, longItemB]"
      "contextPreamble @ renderBlock 0 longItemA @ [10] @ renderBlock (Suc 0) longItemB"] two_message
  have "length (contextPreamble @ renderBlock 0 longItemA @ [10] @ renderBlock (Suc 0) longItemB)
     \<le> RAG_CONTEXT_MAX_CHARS env800 + length contextPreamble +
        (length (sectionsFrom (RAG_CONTEXT_MAX_CHARS env800) 0 0 [longItemA, longItemB]) - 1)"
    unfolding Let_def by blast
  then show ?thesis using two_message unfolding two_sections by simp
qed

section \<open>The MMR selector\<close>

subsection \<open>The inner loop picks the first maximum\<close>

lemma bestFrom_Some:
  assumes "bestFrom f xs k (b0, Some v) = (bi, r)"
  shows "\<exists>bv. r = Some bv \<and> v \<le> bv \<and> (\<forall>x \<in> set xs. f x \<le> bv) \<and>
           ((bi = b0 \<and> bv = v) \<or>
            (k \<le> bi \<and> bi < k + length xs \<and> f (xs ! (bi - k)) = bv \<and> v < bv \<and>
             (\<forall>j < bi - k. f (xs ! j) < bv)))"
  using assms
proof (induction xs arbitrary: k b0 v)
  case Nil
  then show ?case by auto
next
  case (Cons x xs)
  show ?case
  proof (cases "f x > v")
    case True
    with Cons.prems have "bestFrom f xs (Suc k) (k, Some (f x)) = (bi, r)" by simp
    from Cons.IH [OF this] obtain bv where bv: "r = Some bv" "f x \<le> bv" "\<forall>y \<in> set xs. f y \<le> bv"
      and alt: "(bi = k \<and> bv = f x) \<or>
            (Suc k \<le> bi \<and> bi < Suc k + length xs \<and> f (xs ! (bi - Suc k)) = bv \<and> f x < bv \<and>
             (\<forall>j < bi - Suc k. f (xs ! j) < bv))"
      by blast
    from alt have "k \<le> bi \<and> bi < k + length (x # xs) \<and> f ((x # xs) ! (bi - k)) = bv \<and> v < bv \<and>
             (\<forall>j < bi - k. f ((x # xs) ! j) < bv)"
    proof
      assume "bi = k \<and> bv = f x"
      with True show ?thesis by simp
    next
      assume a: "Suc k \<le> bi \<and> bi < Suc k + length xs \<and> f (xs ! (bi - Suc k)) = bv \<and> f x < bv \<and>
             (\<forall>j < bi - Suc k. f (xs ! j) < bv)"
      then have "bi - k = Suc (bi - Suc k)" by arith
      with a True show ?thesis by (auto simp: nth_Cons split: nat.splits)
    qed
    with bv True show ?thesis by auto
  next
    case False
    with Cons.prems have "bestFrom f xs (Suc k) (b0, Some v) = (bi, r)" by simp
    from Cons.IH [OF this] obtain bv where bv: "r = Some bv" "v \<le> bv" "\<forall>y \<in> set xs. f y \<le> bv"
      and alt: "(bi = b0 \<and> bv = v) \<or>
            (Suc k \<le> bi \<and> bi < Suc k + length xs \<and> f (xs ! (bi - Suc k)) = bv \<and> v < bv \<and>
             (\<forall>j < bi - Suc k. f (xs ! j) < bv))"
      by blast
    from alt have "(bi = b0 \<and> bv = v) \<or> (k \<le> bi \<and> bi < k + length (x # xs) \<and> f ((x # xs) ! (bi - k)) = bv \<and> v < bv \<and>
             (\<forall>j < bi - k. f ((x # xs) ! j) < bv))"
    proof
      assume "bi = b0 \<and> bv = v"
      then show ?thesis by simp
    next
      assume a: "Suc k \<le> bi \<and> bi < Suc k + length xs \<and> f (xs ! (bi - Suc k)) = bv \<and> v < bv \<and>
             (\<forall>j < bi - Suc k. f (xs ! j) < bv)"
      then have "bi - k = Suc (bi - Suc k)" by arith
      with a False show ?thesis by (auto simp: nth_Cons split: nat.splits)
    qed
    with bv False show ?thesis by auto
  qed
qed

lemma bestIndexOf_first_max:
  assumes "xs \<noteq> []"
  shows "bestIndexOf f xs < length xs \<and>
         (\<forall>j < length xs. f (xs ! j) \<le> f (xs ! bestIndexOf f xs)) \<and>
         (\<forall>j < bestIndexOf f xs. f (xs ! j) < f (xs ! bestIndexOf f xs))"
proof -
  from assms obtain x rest where xs: "xs = x # rest" by (cases xs) auto
  obtain bi r where br: "bestFrom f rest (Suc 0) (0, Some (f x)) = (bi, r)"
    by (cases "bestFrom f rest (Suc 0) (0, Some (f x))") auto
  then have bi: "bestIndexOf f xs = bi" by (simp add: bestIndexOf_def xs)
  from bestFrom_Some [OF br] obtain bv where bv: "f x \<le> bv" "\<forall>y \<in> set rest. f y \<le> bv"
    and alt: "(bi = 0 \<and> bv = f x) \<or>
            (Suc 0 \<le> bi \<and> bi < Suc 0 + length rest \<and> f (rest ! (bi - Suc 0)) = bv \<and> f x < bv \<and>
             (\<forall>j < bi - Suc 0. f (rest ! j) < bv))"
    by blast
  have all: "\<forall>j < length xs. f (xs ! j) \<le> bv"
    using bv by (auto simp: xs nth_Cons split: nat.splits)
  from alt show ?thesis
  proof
    assume "bi = 0 \<and> bv = f x"
    with all show ?thesis unfolding bi by (simp add: xs)
  next
    assume a: "Suc 0 \<le> bi \<and> bi < Suc 0 + length rest \<and> f (rest ! (bi - Suc 0)) = bv \<and> f x < bv \<and>
             (\<forall>j < bi - Suc 0. f (rest ! j) < bv)"
    then obtain b' where b': "bi = Suc b'" by (cases bi) auto
    with a all show ?thesis unfolding bi by (auto simp: xs nth_Cons split: nat.splits)
  qed
qed

subsection \<open>The selection loop\<close>

lemma insort_key_front:
  "\<forall>y \<in> set ys. g x \<le> g y \<Longrightarrow> insort_key g x ys = x # ys"
  by (cases ys) auto

lemma sort_key_first_min:
  fixes g :: "'a \<Rightarrow> real"
  assumes "i < length xs" "\<forall>j < length xs. g (xs ! i) \<le> g (xs ! j)" "\<forall>j < i. g (xs ! i) < g (xs ! j)"
  shows "sort_key g xs = xs ! i # sort_key g (splice1 xs i)"
  using assms
proof (induction xs arbitrary: i)
  case Nil
  then show ?case by simp
next
  case (Cons x rest)
  show ?case
  proof (cases i)
    case 0
    have "\<forall>y \<in> set rest. g x \<le> g y"
    proof
      fix y assume "y \<in> set rest"
      then obtain j where "j < length rest" "rest ! j = y" by (auto simp: in_set_conv_nth)
      with Cons.prems(2) [rule_format, of "Suc j"] 0 show "g x \<le> g y" by simp
    qed
    then have "\<forall>y \<in> set (sort_key g rest). g x \<le> g y" by simp
    then have "insort_key g x (sort_key g rest) = x # sort_key g rest"
      by (rule insort_key_front)
    with 0 show ?thesis by (simp add: splice1_def)
  next
    case (Suc i')
    have i': "i' < length rest" using Cons.prems(1) Suc by simp
    have le: "\<forall>j < length rest. g (rest ! i') \<le> g (rest ! j)"
      using Cons.prems(2) Suc by (auto dest: spec [of _ "Suc j" for j])
    have lt: "\<forall>j < i'. g (rest ! i') < g (rest ! j)"
      using Cons.prems(3) Suc by (auto dest: spec [of _ "Suc j" for j])
    have x: "g (rest ! i') < g x"
      using Cons.prems(3) [rule_format, of 0] Suc by simp
    from Cons.IH [OF i' le lt]
    have "sort_key g rest = rest ! i' # sort_key g (splice1 rest i')" .
    then have "sort_key g (x # rest) = insort_key g x (rest ! i' # sort_key g (splice1 rest i'))"
      by simp
    also have "\<dots> = rest ! i' # insort_key g x (sort_key g (splice1 rest i'))"
      using x by simp
    finally show ?thesis using Suc by (simp add: splice1_def)
  qed
qed

lemma mmrScore_lambda_one:
  "RAG_MMR_LAMBDA e = 1 \<Longrightarrow> mmrScore e m selected = (\<lambda>candidate. score candidate / m)"
  by (rule ext) (simp add: mmrScore_def Let_def)

lemma mmrLoop_lambda_one:
  assumes "RAG_MMR_LAMBDA e = 1" "0 < m"
  shows "mmrLoop e m k selected remaining =
           selected @ take (k - length selected) (sort_key (\<lambda>x. - score x) remaining)"
  using assms
proof (induction e m k selected remaining rule: mmrLoop.induct)
  case (1 e m k selected remaining)
  show ?case
  proof (cases "length selected < k \<and> length remaining > 0")
    case False
    then show ?thesis by (auto simp: mmrLoop.simps [of e m k selected remaining])
  next
    case True
    let ?f = "mmrScore e m selected"
    let ?i = "bestIndexOf ?f remaining"
    let ?g = "\<lambda>x. - score x"
    from True have ne: "remaining \<noteq> []" by auto
    note b = bestIndexOf_first_max [OF ne, of ?f]
    have f: "?f = (\<lambda>candidate. score candidate / m)"
      using "1.prems"(1) by (rule mmrScore_lambda_one)
    have i: "?i < length remaining" using b by blast
    have le: "\<forall>j < length remaining. ?g (remaining ! ?i) \<le> ?g (remaining ! j)"
      using b "1.prems"(2) unfolding f by (auto simp: divide_le_cancel)
    have lt: "\<forall>j < ?i. ?g (remaining ! ?i) < ?g (remaining ! j)"
      using b "1.prems"(2) unfolding f by (auto simp: divide_less_cancel)
    have s: "sort_key ?g remaining = remaining ! ?i # sort_key ?g (splice1 remaining ?i)"
      using i le lt by (rule sort_key_first_min)
    have "mmrLoop e m k selected remaining =
            mmrLoop e m k (selected @ [remaining ! ?i]) (splice1 remaining ?i)"
      using True by (simp add: mmrLoop.simps [of e m k selected remaining] Let_def)
    also have "\<dots> = (selected @ [remaining ! ?i]) @
        take (k - length (selected @ [remaining ! ?i])) (sort_key ?g (splice1 remaining ?i))"
      using "1.IH" [OF True refl "1.prems"] .
    also have "\<dots> = selected @ take (k - length selected) (sort_key ?g remaining)"
      using True unfolding s by (simp add: take_Cons' )
    finally show ?thesis .
  qed
qed

lemma mmrLoop_length:
  "length selected \<le> k \<Longrightarrow>
     length (mmrLoop e m k selected remaining) = min k (length selected + length remaining)"
proof (induction e m k selected remaining rule: mmrLoop.induct)
  case (1 e m k selected remaining)
  show ?case
  proof (cases "length selected < k \<and> length remaining > 0")
    case False
    with "1.prems" show ?thesis by (auto simp: mmrLoop.simps [of e m k selected remaining])
  next
    case True
    let ?i = "bestIndexOf (mmrScore e m selected) remaining"
    from True have ne: "remaining \<noteq> []" by auto
    have i: "?i < length remaining" using bestIndexOf_first_max [OF ne] by blast
    have "mmrLoop e m k selected remaining =
            mmrLoop e m k (selected @ [remaining ! ?i]) (splice1 remaining ?i)"
      using True by (simp add: mmrLoop.simps [of e m k selected remaining] Let_def)
    moreover have "length (mmrLoop e m k (selected @ [remaining ! ?i]) (splice1 remaining ?i))
        = min k (length (selected @ [remaining ! ?i]) + length (splice1 remaining ?i))"
      using "1.IH" [OF True refl] True by simp
    ultimately show ?thesis using i by (simp add: splice1_def)
  qed
qed

lemma mset_splice1:
  "i < length xs \<Longrightarrow> mset xs = add_mset (xs ! i) (mset (splice1 xs i))"
  by (metis Cons_nth_drop_Suc append_take_drop_id mset.simps(2) splice1_def union_mset_add_mset_right mset_append)

lemma mmrLoop_mset:
  "mset (mmrLoop e m k selected remaining) \<subseteq># mset selected + mset remaining"
proof (induction e m k selected remaining rule: mmrLoop.induct)
  case (1 e m k selected remaining)
  show ?case
  proof (cases "length selected < k \<and> length remaining > 0")
    case False
    then show ?thesis by (auto simp: mmrLoop.simps [of e m k selected remaining])
  next
    case True
    let ?i = "bestIndexOf (mmrScore e m selected) remaining"
    from True have ne: "remaining \<noteq> []" by auto
    have i: "?i < length remaining" using bestIndexOf_first_max [OF ne] by blast
    have "mmrLoop e m k selected remaining =
            mmrLoop e m k (selected @ [remaining ! ?i]) (splice1 remaining ?i)"
      using True by (simp add: mmrLoop.simps [of e m k selected remaining] Let_def)
    moreover have "mset (mmrLoop e m k (selected @ [remaining ! ?i]) (splice1 remaining ?i))
        \<subseteq># mset (selected @ [remaining ! ?i]) + mset (splice1 remaining ?i)"
      using "1.IH" [OF True refl] .
    ultimately show ?thesis using mset_splice1 [OF i] by simp
  qed
qed

subsection \<open>The diversifier\<close>

lemma fold_max_ge: "(a::real) \<le> fold max xs a"
proof (induction xs arbitrary: a)
  case Nil
  show ?case by simp
next
  case (Cons x xs)
  have "a \<le> max x a" by simp
  also have "\<dots> \<le> fold max xs (max x a)" by (rule Cons)
  finally show ?case by simp
qed

lemma fold_max_Max: "fold max xs (a::real) = Max (insert a (set xs))"
proof (induction xs arbitrary: a)
  case Nil
  show ?case by simp
next
  case (Cons x xs)
  have "fold max (x # xs) a = Max (insert (max x a) (set xs))"
    by (simp add: Cons)
  also have "\<dots> = Max (insert a (set (x # xs)))"
    by (cases "set xs = {}") (auto simp: max.commute max.left_commute max.assoc)
  finally show ?case .
qed

lemma maxRelevanceOf_pos: "1 \<le> maxRelevanceOf candidates"
  unfolding maxRelevanceOf_def by (rule fold_max_ge)

lemma maxRelevanceOf_Max: "maxRelevanceOf candidates = Max (insert 1 (score ` set candidates))"
  by (simp add: maxRelevanceOf_def fold_max_Max)

lemma sortByScoreDesc_take_sorted:
  "sortByScoreDesc (take k (sortByScoreDesc xs)) = take k (sortByScoreDesc xs)"
proof -
  have "sorted (map (\<lambda>x. - score x) (sort_key (\<lambda>x. - score x) xs))"
    by (rule sorted_sort_key)
  then have "sorted (take k (map (\<lambda>x. - score x) (sort_key (\<lambda>x. - score x) xs)))"
    by (rule sorted_wrt_take)
  then have "sorted (map (\<lambda>x. - score x) (take k (sort_key (\<lambda>x. - score x) xs)))"
    by (simp add: take_map)
  then show ?thesis
    unfolding sortByScoreDesc_def by (rule sort_key_id_if_sorted)
qed

lemma applyMMR_lambda_one:
  assumes "RAG_MMR_LAMBDA e = 1" "topK < length candidates"
  shows "applyMMR e candidates topK = take topK (sortByScoreDesc candidates)"
proof -
  have "0 < maxRelevanceOf candidates"
    using maxRelevanceOf_pos [of candidates] by simp
  from mmrLoop_lambda_one [OF assms(1) this, of topK "[]" candidates]
  have "mmrLoop e (maxRelevanceOf candidates) topK [] candidates =
          take topK (sortByScoreDesc candidates)"
    by (simp add: sortByScoreDesc_def)
  with assms(2) show ?thesis
    by (simp add: applyMMR_def sortByScoreDesc_take_sorted)
qed

text \<open>
  Claim C4. For every candidate pool and every \<open>topK\<close>, \<open>applyMMR\<close> returns at most
  \<open>topK\<close> items, and every returned item is an element of the pool (no item more often
  than the pool has it). A pool of at most \<open>topK\<close> items is returned unchanged. With
  \<open>RAG_MMR_LAMBDA = 1\<close> the result of a larger pool is the first \<open>topK\<close> items of the
  pool in descending order of score (equal scores in pool order); for a pool that is
  already in that order, as \<open>retrieveKnowledge\<close> passes it, these are its first \<open>topK\<close>
  items.
\<close>

theorem applyMMR_bounded_subset_relevance_order:
  "length (applyMMR e candidates topK) \<le> topK \<and>
   set (applyMMR e candidates topK) \<subseteq> set candidates \<and>
   mset (applyMMR e candidates topK) \<subseteq># mset candidates \<and>
   (length candidates \<le> topK \<longrightarrow> applyMMR e candidates topK = candidates) \<and>
   (RAG_MMR_LAMBDA e = 1 \<and> topK < length candidates \<longrightarrow>
      applyMMR e candidates topK = take topK (sortByScoreDesc candidates)) \<and>
   (RAG_MMR_LAMBDA e = 1 \<and> sorted (map (\<lambda>x. - score x) candidates) \<longrightarrow>
      applyMMR e candidates topK = take topK candidates)"
proof (intro conjI impI)
  show len: "length (applyMMR e candidates topK) \<le> topK"
    using mmrLoop_length [of "[]" topK e "maxRelevanceOf candidates" candidates]
    by (simp add: applyMMR_def sortByScoreDesc_def)
  show ms: "mset (applyMMR e candidates topK) \<subseteq># mset candidates"
    using mmrLoop_mset [of e "maxRelevanceOf candidates" topK "[]" candidates]
    by (simp add: applyMMR_def sortByScoreDesc_def)
  then show "set (applyMMR e candidates topK) \<subseteq> set candidates"
    by (metis set_mset_mono set_mset_mset)
  show "applyMMR e candidates topK = candidates" if "length candidates \<le> topK"
    using that by (simp add: applyMMR_def)
  show "applyMMR e candidates topK = take topK (sortByScoreDesc candidates)"
    if "RAG_MMR_LAMBDA e = 1 \<and> topK < length candidates"
    using that applyMMR_lambda_one by blast
  show "applyMMR e candidates topK = take topK candidates"
    if a: "RAG_MMR_LAMBDA e = 1 \<and> sorted (map (\<lambda>x. - score x) candidates)"
  proof (cases "topK < length candidates")
    case True
    from a have "sortByScoreDesc candidates = candidates"
      unfolding sortByScoreDesc_def by (intro sort_key_id_if_sorted) simp
    with a True applyMMR_lambda_one [of e topK candidates] show ?thesis by simp
  next
    case False
    then show ?thesis by (simp add: applyMMR_def)
  qed
qed

theorem applyMMR_bounded_subset_relevance_order_witness:
  "RAG_MMR_LAMBDA envLambda1 = 1 \<and> 2 < length [itemLow, itemHigh, itemMid] \<and>
   applyMMR envLambda1 [itemLow, itemHigh, itemMid] 2 = [itemHigh, itemMid] \<and>
   length [itemHigh, itemMid] \<le> 3 \<and>
   applyMMR envLambda1 [itemHigh, itemMid] 3 = [itemHigh, itemMid] \<and>
   sorted (map (\<lambda>x. - score x) [itemHigh, itemMid, itemLow]) \<and>
   applyMMR envLambda1 [itemHigh, itemMid, itemLow] 2 = [itemHigh, itemMid]"
proof -
  have l: "RAG_MMR_LAMBDA envLambda1 = 1"
    by (simp add: envLambda1_def config_defs)
  have s: "sorted (map (\<lambda>x. - score x) [itemHigh, itemMid, itemLow])"
    by (simp add: itemHigh_def itemMid_def itemLow_def)
  have o: "take 2 (sortByScoreDesc [itemLow, itemHigh, itemMid]) = [itemHigh, itemMid]"
    by (simp add: sortByScoreDesc_def itemHigh_def itemMid_def itemLow_def)
  note t = applyMMR_bounded_subset_relevance_order
  have "2 < length [itemLow, itemHigh, itemMid]" by simp
  with t [of envLambda1 "[itemLow, itemHigh, itemMid]" 2] l
  have "applyMMR envLambda1 [itemLow, itemHigh, itemMid] 2
          = take 2 (sortByScoreDesc [itemLow, itemHigh, itemMid])"
    by blast
  with o have r1: "applyMMR envLambda1 [itemLow, itemHigh, itemMid] 2 = [itemHigh, itemMid]"
    by simp
  have "length [itemHigh, itemMid] \<le> 3" by simp
  with t [of envLambda1 "[itemHigh, itemMid]" 3]
  have r2: "applyMMR envLambda1 [itemHigh, itemMid] 3 = [itemHigh, itemMid]" by blast
  from t [of envLambda1 "[itemHigh, itemMid, itemLow]" 2] l s
  have "applyMMR envLambda1 [itemHigh, itemMid, itemLow] 2 = take 2 [itemHigh, itemMid, itemLow]"
    by blast
  then have r3: "applyMMR envLambda1 [itemHigh, itemMid, itemLow] 2 = [itemHigh, itemMid]"
    by simp
  from l s r1 r2 r3 show ?thesis by simp
qed

section \<open>The value that a greedy step maximises\<close>

lemma setOverlap_card:
  assumes "distinct A" "distinct B"
  shows "setOverlap A B =
           (if set A = {} \<or> set B = {} then 0
            else real (card (set A \<inter> set B)) / real (max (card (set A)) (card (set B))))"
  using assms by (simp add: setOverlap_def intersectCount_card distinct_card)

lemma setOverlap_range: "0 \<le> setOverlap A B \<and> setOverlap A B \<le> 1"
proof -
  have "intersectCount A B \<le> max (length A) (length B)"
    using intersectCount_le_min [of A B] by arith
  then have "real (intersectCount A B) \<le> real (max (length A) (length B))"
    by (simp only: of_nat_le_iff)
  moreover have "0 < max (length A) (length B)" if "A \<noteq> []"
    using that by (cases A) (auto simp: max_def)
  ultimately show ?thesis
    by (simp add: setOverlap_def divide_le_eq_1)
qed

lemma clamp01_range: "0 \<le> clamp01 v \<and> clamp01 v \<le> 1"
  by (simp add: clamp01_def)

lemma fold_max_image:
  "fold (\<lambda>x r. max r (g x)) xs (a::real) = Max (insert a (g ` set xs))"
proof (induction xs arbitrary: a)
  case Nil
  show ?case by simp
next
  case (Cons x xs)
  have "fold (\<lambda>x r. max r (g x)) (x # xs) a = Max (insert (max a (g x)) (g ` set xs))"
    by (simp add: Cons)
  also have "\<dots> = Max (insert a (g ` set (x # xs)))"
    by (cases "set xs = {}") (auto simp: max.commute max.left_commute max.assoc)
  finally show ?case .
qed

lemma mmrScore_formula:
  "mmrScore e m selected candidate =
     RAG_MMR_LAMBDA e * (score candidate / m) -
     (1 - RAG_MMR_LAMBDA e) *
       Max (insert 0 ((\<lambda>chosen. chunkSimilarity (chunkOf candidate) (chunkOf chosen)) ` set selected))"
  by (simp add: mmrScore_def Let_def fold_max_image)

lemma mmrLoop_step:
  assumes "length selected < topK" "remaining \<noteq> []"
  shows "mmrLoop e m topK selected remaining =
           mmrLoop e m topK
             (selected @ [remaining ! bestIndexOf (mmrScore e m selected) remaining])
             (splice1 remaining (bestIndexOf (mmrScore e m selected) remaining))"
  using assms by (simp add: mmrLoop.simps [of e m topK selected remaining] Let_def)

text \<open>
  Claim C2, amended. The value of a remaining candidate at a greedy step is
  \<open>lambda * (score / maxRelevance) - (1 - lambda) * redundancy\<close>, where the redundancy is
  the largest similarity to an already selected chunk (0 when none is selected) and
  \<open>maxRelevance\<close> is the larger of 1 and the highest score of the pool. The similarity
  of two chunks is, clamped to the interval from 0 to 1, 0.55 times the overlap of the
  token sets plus 0.45 times the overlap of the n-gram sets, where the overlap of two
  sets is the size of their intersection over the size of the larger set (0 when one
  of them is empty). The step picks the first candidate, in pool order, whose value is
  the highest.
\<close>

theorem mmr_selects_first_maximum:
  "mmrScore e m selected candidate =
     RAG_MMR_LAMBDA e * (score candidate / m) -
     (1 - RAG_MMR_LAMBDA e) *
       Max (insert 0 ((\<lambda>chosen. chunkSimilarity (chunkOf candidate) (chunkOf chosen)) ` set selected)) \<and>
   chunkSimilarity left right =
     clamp01 (setOverlap (tokenSet left) (tokenSet right) * (11 / 20) +
              setOverlap (ngramSet left) (ngramSet right) * (9 / 20)) \<and>
   0 \<le> chunkSimilarity left right \<and> chunkSimilarity left right \<le> 1 \<and>
   (distinct A \<and> distinct B \<longrightarrow>
      setOverlap A B =
        (if set A = {} \<or> set B = {} then 0
         else real (card (set A \<inter> set B)) / real (max (card (set A)) (card (set B))))) \<and>
   (length selected < topK \<and> remaining \<noteq> [] \<longrightarrow>
      bestIndexOf (mmrScore e m selected) remaining < length remaining \<and>
      (\<forall>j < length remaining.
         mmrScore e m selected (remaining ! j)
           \<le> mmrScore e m selected (remaining ! bestIndexOf (mmrScore e m selected) remaining)) \<and>
      (\<forall>j < bestIndexOf (mmrScore e m selected) remaining.
         mmrScore e m selected (remaining ! j)
           < mmrScore e m selected (remaining ! bestIndexOf (mmrScore e m selected) remaining)) \<and>
      mmrLoop e m topK selected remaining =
        mmrLoop e m topK
          (selected @ [remaining ! bestIndexOf (mmrScore e m selected) remaining])
          (splice1 remaining (bestIndexOf (mmrScore e m selected) remaining))) \<and>
   (topK < length candidates \<longrightarrow>
      applyMMR e candidates topK =
        sortByScoreDesc (mmrLoop e (Max (insert 1 (score ` set candidates))) topK [] candidates))"
proof (intro conjI impI)
  show "mmrScore e m selected candidate =
     RAG_MMR_LAMBDA e * (score candidate / m) -
     (1 - RAG_MMR_LAMBDA e) *
       Max (insert 0 ((\<lambda>chosen. chunkSimilarity (chunkOf candidate) (chunkOf chosen)) ` set selected))"
    by (rule mmrScore_formula)
  show "chunkSimilarity left right =
     clamp01 (setOverlap (tokenSet left) (tokenSet right) * (11 / 20) +
              setOverlap (ngramSet left) (ngramSet right) * (9 / 20))"
    by (simp add: chunkSimilarity_def Let_def)
  show "0 \<le> chunkSimilarity left right" "chunkSimilarity left right \<le> 1"
    using clamp01_range by (simp_all add: chunkSimilarity_def Let_def)
  show "setOverlap A B =
        (if set A = {} \<or> set B = {} then 0
         else real (card (set A \<inter> set B)) / real (max (card (set A)) (card (set B))))"
    if "distinct A \<and> distinct B"
    using that setOverlap_card by blast
next
  assume a: "length selected < topK \<and> remaining \<noteq> []"
  then have ne: "remaining \<noteq> []" by simp
  note b = bestIndexOf_first_max [OF ne, of "mmrScore e m selected"]
  from b show "bestIndexOf (mmrScore e m selected) remaining < length remaining" by blast
  from b show "\<forall>j < length remaining.
         mmrScore e m selected (remaining ! j)
           \<le> mmrScore e m selected (remaining ! bestIndexOf (mmrScore e m selected) remaining)"
    by blast
  from b show "\<forall>j < bestIndexOf (mmrScore e m selected) remaining.
         mmrScore e m selected (remaining ! j)
           < mmrScore e m selected (remaining ! bestIndexOf (mmrScore e m selected) remaining)"
    by blast
  from a show "mmrLoop e m topK selected remaining =
        mmrLoop e m topK
          (selected @ [remaining ! bestIndexOf (mmrScore e m selected) remaining])
          (splice1 remaining (bestIndexOf (mmrScore e m selected) remaining))"
    using mmrLoop_step by blast
next
  assume "topK < length candidates"
  then show "applyMMR e candidates topK =
        sortByScoreDesc (mmrLoop e (Max (insert 1 (score ` set candidates))) topK [] candidates)"
    by (simp add: applyMMR_def maxRelevanceOf_Max)
qed

lemma abcd_sets:
  "set (tokenSet chunkAbCd) \<inter> set (tokenSet chunkCdEf) = {js ''cd''}"
  "set (tokenSet chunkAbCd) \<union> set (tokenSet chunkCdEf) = {js ''ab'', js ''cd'', js ''ef''}"
  "set (ngramSet chunkAbCd) \<inter> set (ngramSet chunkCdEf) = {}"
  "set (ngramSet chunkAbCd) \<union> set (ngramSet chunkCdEf)
     = {js ''abc'', js ''bcd'', js ''cde'', js ''def''}"
  by (auto simp: chunkAbCd_def chunkCdEf_def js_def)

text \<open>
  Claim C2 as stated fails: the overlaps are not Jaccard similarities. For the chunks
  of \<open>ab cd\<close> and \<open>cd ef\<close> the code computes \<open>0.55 * 1/2\<close>, the Jaccard formula
  \<open>0.55 * 1/3\<close>.
\<close>

theorem similarity_is_not_jaccard:
  "chunkSimilarity chunkAbCd chunkCdEf = 11 / 40 \<and> spec_similarity chunkAbCd chunkCdEf = 11 / 60"
proof
  show "chunkSimilarity chunkAbCd chunkCdEf = 11 / 40"
    by (simp add: chunkSimilarity_def setOverlap_def intersectCount_def clamp01_def
          chunkAbCd_def chunkCdEf_def js_def)
  have "card {js ''ab'', js ''cd'', js ''ef''} = 3"
    by (simp add: js_def)
  then show "spec_similarity chunkAbCd chunkCdEf = 11 / 60"
    by (simp add: spec_similarity_def spec_jaccard_def abcd_sets clamp01_def)
qed

lemma pool_best:
  "bestIndexOf (mmrScore defaultEnv 3 []) [itemLow, itemHigh, itemMid] = 1"
  by (simp add: bestIndexOf_def mmrScore_def config_defs itemLow_def itemHigh_def itemMid_def)

theorem mmr_selects_first_maximum_witness:
  "distinct (tokenSet chunkAbCd) \<and> distinct (tokenSet chunkCdEf) \<and>
   setOverlap (tokenSet chunkAbCd) (tokenSet chunkCdEf) = 1 / 2 \<and>
   length ([] :: scored list) < 2 \<and> [itemLow, itemHigh, itemMid] \<noteq> [] \<and>
   bestIndexOf (mmrScore defaultEnv 3 []) [itemLow, itemHigh, itemMid] = 1 \<and>
   mmrLoop defaultEnv 3 2 [] [itemLow, itemHigh, itemMid]
     = mmrLoop defaultEnv 3 2 [itemHigh] [itemLow, itemMid] \<and>
   2 < length [itemLow, itemHigh, itemMid] \<and>
   applyMMR defaultEnv [itemLow, itemHigh, itemMid] 2
     = sortByScoreDesc (mmrLoop defaultEnv 3 2 [] [itemLow, itemHigh, itemMid])"
proof -
  have d: "distinct (tokenSet chunkAbCd) \<and> distinct (tokenSet chunkCdEf)"
    by (simp add: chunkAbCd_def chunkCdEf_def js_def)
  have c: "card (set (tokenSet chunkAbCd)) = 2" "card (set (tokenSet chunkCdEf)) = 2"
    "tokenSet chunkAbCd \<noteq> []" "tokenSet chunkCdEf \<noteq> []"
    by (simp_all add: chunkAbCd_def chunkCdEf_def js_def)
  have h: "length ([] :: scored list) < 2 \<and> [itemLow, itemHigh, itemMid] \<noteq> []"
    by simp
  have k: "2 < length [itemLow, itemHigh, itemMid]"
    by simp
  have m: "Max (insert 1 (score ` set [itemLow, itemHigh, itemMid])) = 3"
    by (simp add: itemLow_def itemHigh_def itemMid_def)
  note t = mmr_selects_first_maximum
    [of defaultEnv 3 "[]" itemLow chunkAbCd chunkCdEf "tokenSet chunkAbCd" "tokenSet chunkCdEf"
        2 "[itemLow, itemHigh, itemMid]" "[itemLow, itemHigh, itemMid]"]
  from t d have "setOverlap (tokenSet chunkAbCd) (tokenSet chunkCdEf) =
        (if set (tokenSet chunkAbCd) = {} \<or> set (tokenSet chunkCdEf) = {} then 0
         else real (card (set (tokenSet chunkAbCd) \<inter> set (tokenSet chunkCdEf)))
              / real (max (card (set (tokenSet chunkAbCd))) (card (set (tokenSet chunkCdEf)))))"
    by blast
  then have r1: "setOverlap (tokenSet chunkAbCd) (tokenSet chunkCdEf) = 1 / 2"
    by (simp add: c abcd_sets)
  from t h have "mmrLoop defaultEnv 3 2 [] [itemLow, itemHigh, itemMid] =
        mmrLoop defaultEnv 3 2
          ([] @ [[itemLow, itemHigh, itemMid] ! bestIndexOf (mmrScore defaultEnv 3 []) [itemLow, itemHigh, itemMid]])
          (splice1 [itemLow, itemHigh, itemMid] (bestIndexOf (mmrScore defaultEnv 3 []) [itemLow, itemHigh, itemMid]))"
    by blast
  then have r2: "mmrLoop defaultEnv 3 2 [] [itemLow, itemHigh, itemMid]
     = mmrLoop defaultEnv 3 2 [itemHigh] [itemLow, itemMid]"
    unfolding pool_best by (simp add: splice1_def)
  from t k have "applyMMR defaultEnv [itemLow, itemHigh, itemMid] 2 =
        sortByScoreDesc (mmrLoop defaultEnv (Max (insert 1 (score ` set [itemLow, itemHigh, itemMid]))) 2 []
          [itemLow, itemHigh, itemMid])"
    by blast
  then have r3: "applyMMR defaultEnv [itemLow, itemHigh, itemMid] 2
     = sortByScoreDesc (mmrLoop defaultEnv 3 2 [] [itemLow, itemHigh, itemMid])"
    unfolding m .
  from d r1 h pool_best r2 k r3 show ?thesis by blast
qed

section \<open>Every snapshot is well formed\<close>

lemma createChunk_ok:
  assumes "createChunk e src txt i = Some ch"
  shows "chunk_ok ch"
proof -
  let ?n = "trim (collapseSpaces txt)"
  from assms have ne: "?n \<noteq> []" "tokenize ?n \<noteq> []"
    by (auto simp: createChunk_def Let_def split: if_splits)
  with assms have ch: "ch = \<lparr> cid = src @ js ''#'' @ showNat i, source = src,
       ctext = ?n, tokensCount = length (tokenize ?n),
       tokenFreq = fold bump (tokenize ?n) [], tokenSet = map fst (fold bump (tokenize ?n) []),
       ngramSet = buildCharNgrams ?n (RAG_NGRAM_SIZE e), lowerText = toLowerCase ?n \<rparr>"
    by (simp add: createChunk_def Let_def)
  show ?thesis
    unfolding ch chunk_ok_def using ne
    by (simp add: distinct_fold_bump Suc_le_eq del: distinct_map)
qed

lemma rebuildCache_chunks_ok:
  assumes "rebuildCache e w now = Inr c"
  shows "list_all chunk_ok (chunks c)"
  unfolding list_all_iff
proof
  fix ch assume "ch \<in> set (chunks c)"
  with assms obtain src t0 i where "createChunk e src t0 i = Some ch"
    using rebuildCache_created by blast
  then show "chunk_ok ch" by (rule createChunk_ok)
qed

lemma buildIndexStats_Nil: "buildIndexStats [] = ([], 0)"
  by (simp add: buildIndexStats_def)

lemma rebuildCache_stats:
  assumes "rebuildCache e w now = Inr c"
  shows "dfMap c = fst (buildIndexStats (chunks c)) \<and> avgTokens c = snd (buildIndexStats (chunks c))"
  using assms
  by (auto simp: rebuildCache_def Let_def buildIndexStats_Nil split: if_splits option.splits sum.splits)

lemma rebuildCache_snapshot_ok: "rebuildCache e w now = Inr c \<Longrightarrow> snapshot_ok c"
  unfolding snapshot_ok_def using rebuildCache_chunks_ok rebuildCache_stats by blast

lemma initialCache_snapshot_ok: "snapshot_ok initialCache"
  by (simp add: snapshot_ok_def initialCache_def buildIndexStats_Nil)

lemma ensureCache_snapshot_ok:
  "snapshot_ok c \<Longrightarrow> ensureCache e w now c = Inr c' \<Longrightarrow> snapshot_ok c'"
  by (auto simp: ensureCache_def rebuildCache_snapshot_ok split: if_splits)

lemma count_list_distinct: "distinct xs \<Longrightarrow> count_list xs x \<le> 1"
  by (induction xs) auto

lemma df_fold:
  "getOr0 (fold (\<lambda>c m. fold bump (tokenSet c) m) cs m0) t
     = getOr0 m0 t + sum_list (map (\<lambda>c. count_list (tokenSet c) t) cs)"
  by (induction cs arbitrary: m0) (simp_all add: getOr0_fold_bump)

lemma df_le_chunks:
  assumes "snapshot_ok st"
  shows "getOr0 (dfMap st) t \<le> length (chunks st)"
proof -
  have "sum_list (map (\<lambda>c. count_list (tokenSet c) t) cs) \<le> length cs"
    if "list_all chunk_ok cs" for cs
    using that
  proof (induction cs)
    case Nil
    show ?case by simp
  next
    case (Cons c cs)
    from Cons.prems have "distinct (tokenSet c)"
      by (simp add: chunk_ok_def)
    then have "count_list (tokenSet c) t \<le> 1"
      by (rule count_list_distinct)
    with Cons show ?case by simp
  qed
  with assms show ?thesis
    by (simp add: snapshot_ok_def buildIndexStats_def Let_def df_fold getOr0_Nil)
qed

lemma helloCache_snapshot_ok: "snapshot_ok helloCache"
  by (simp add: snapshot_ok_def chunk_ok_def helloCache_def helloChunk_def buildIndexStats_def
        bump_def getOr0_def js_def)

section \<open>The BM25 score as a sum\<close>

lemma getOr0_absent: "k \<notin> set (map fst m) \<Longrightarrow> getOr0 m k = 0"
  by (simp add: getOr0_def map_of_eq_None_iff [THEN iffD2])

lemma sum_list_all_zero: "\<forall>x \<in> set xs. f x = (0::real) \<Longrightarrow> sum_list (map f xs) = 0"
  by (induction xs) simp_all

lemma bm25Term_zero: "bm25Term e st chunkLen token 0 = 0"
  by (simp add: bm25Term_def Let_def)

lemma bm25Score_sum:
  "bm25Score e c qf st =
     sum_list (map (\<lambda>token. bm25Term e st (tokensCount c) token (getOr0 (tokenFreq c) token))
                (uniqueTokens qf))"
proof -
  have "fold (\<lambda>token sc. let tf = getOr0 (tokenFreq c) token
                         in if tf \<le> 0 then sc else sc + bm25Term e st (tokensCount c) token tf) ts a
        = a + sum_list (map (\<lambda>token. bm25Term e st (tokensCount c) token
                                        (getOr0 (tokenFreq c) token)) ts)"
    for ts a
    by (induction ts arbitrary: a) (simp_all add: Let_def bm25Term_zero)
  then show ?thesis by (simp add: bm25Score_def)
qed

section \<open>BM25 and the term frequency\<close>

lemma K1_pos: "1 / 5 \<le> RAG_BM25_K1 e"
  by (simp add: RAG_BM25_K1_def)

lemma B_range: "0 \<le> RAG_BM25_B e \<and> RAG_BM25_B e \<le> 1"
  by (simp add: RAG_BM25_B_def)

lemma tokenWeight_pos: "0 < tokenWeight token"
  by (simp add: tokenWeight_def)

lemma idf_nonneg:
  assumes "df \<le> N" "0 \<le> df"
  shows "0 \<le> ln (1 + (N - df + 1 / 2) / (df + 1 / 2 :: real))"
proof -
  have "0 \<le> (N - df + 1 / 2) / (df + 1 / 2)"
    using assms by simp
  then show ?thesis by simp
qed

lemma tf_ratio_mono:
  fixes c0 eps :: real
  assumes "0 \<le> c0" "eps \<le> 1" "tf \<le> tf'"
  shows "real tf / max (real tf + c0) eps \<le> real tf' / max (real tf' + c0) eps"
proof (cases "tf = 0")
  case True
  have "0 \<le> real tf' / max (real tf' + c0) eps"
    using assms(1) by (simp add: le_max_iff_disj)
  with True show ?thesis by simp
next
  case False
  then have p: "1 \<le> real tf" "1 \<le> real tf'" using assms(3) by simp_all
  then have m: "max (real tf + c0) eps = real tf + c0" "max (real tf' + c0) eps = real tf' + c0"
    using assms(1,2) by simp_all
  have "c0 * real tf \<le> c0 * real tf'"
    using assms(1,3) by (intro mult_left_mono) simp_all
  then have "real tf * (real tf' + c0) \<le> real tf' * (real tf + c0)"
    by (simp add: algebra_simps)
  then show ?thesis
    unfolding m using p assms(1) by (simp add: frac_le_eq divide_simps)
qed

lemma bm25Term_factor:
  "bm25Term e st chunkLen token tf =
     (ln (1 + (max 1 (real (length (chunks st))) - real (getOr0 (dfMap st) token) + 1 / 2)
               / (real (getOr0 (dfMap st) token) + 1 / 2))
        * (RAG_BM25_K1 e + 1) * tokenWeight token)
     * (real tf / max (real tf + RAG_BM25_K1 e *
          (1 - RAG_BM25_B e + (RAG_BM25_B e * real chunkLen) / max 1 (avgTokens st))) (1 / 10 ^ 9))"
  by (simp add: bm25Term_def Let_def)

lemma bm25_length_norm_nonneg:
  "0 \<le> RAG_BM25_K1 e * (1 - RAG_BM25_B e + (RAG_BM25_B e * real chunkLen) / max 1 (avgTokens st))"
proof -
  have "0 \<le> RAG_BM25_K1 e" using K1_pos [of e] by simp
  moreover have "0 \<le> 1 - RAG_BM25_B e" using B_range [of e] by simp
  moreover have "0 \<le> (RAG_BM25_B e * real chunkLen) / max 1 (avgTokens st)"
    using B_range [of e] by simp
  ultimately show ?thesis by simp
qed

lemma bm25_coefficient_nonneg:
  assumes "snapshot_ok st"
  shows "0 \<le> ln (1 + (max 1 (real (length (chunks st))) - real (getOr0 (dfMap st) token) + 1 / 2)
               / (real (getOr0 (dfMap st) token) + 1 / 2))
        * (RAG_BM25_K1 e + 1) * tokenWeight token"
proof -
  have "real (getOr0 (dfMap st) token) \<le> real (length (chunks st))"
    using df_le_chunks [OF assms, of token] by (simp only: of_nat_le_iff)
  then have "real (getOr0 (dfMap st) token) \<le> max 1 (real (length (chunks st)))"
    by simp
  then have "0 \<le> ln (1 + (max 1 (real (length (chunks st))) - real (getOr0 (dfMap st) token) + 1 / 2)
               / (real (getOr0 (dfMap st) token) + 1 / 2))"
    by (rule idf_nonneg) simp
  moreover have "0 \<le> RAG_BM25_K1 e + 1" using K1_pos [of e] by simp
  moreover have "0 \<le> tokenWeight token" using tokenWeight_pos [of token] by simp
  ultimately show ?thesis by simp
qed

lemma bm25Term_mono:
  assumes "snapshot_ok st" "tf \<le> tf'"
  shows "bm25Term e st chunkLen token tf \<le> bm25Term e st chunkLen token tf'"
  unfolding bm25Term_factor
  by (intro mult_left_mono tf_ratio_mono bm25_coefficient_nonneg bm25_length_norm_nonneg assms)
     simp

text \<open>
  Claim C3. In a snapshot (where the document frequency of a token is at most the
  number of chunks), for a fixed chunk length, token, \<open>k1\<close> and \<open>b\<close>, the summand that a
  query token adds to the BM25 score does not decrease when the token's term frequency
  grows; hence the BM25 score of a chunk does not decrease when term frequencies grow
  and the chunk's token count stays the same.
\<close>

theorem bm25_monotone_in_term_frequency:
  "(snapshot_ok state \<and> tf \<le> tf' \<longrightarrow>
      bm25Term e state chunkLen token tf \<le> bm25Term e state chunkLen token tf') \<and>
   (snapshot_ok state \<and> tokensCount c = tokensCount c' \<and>
    (\<forall>t. getOr0 (tokenFreq c) t \<le> getOr0 (tokenFreq c') t) \<longrightarrow>
      bm25Score e c qf state \<le> bm25Score e c' qf state)"
proof (intro conjI impI)
  assume "snapshot_ok state \<and> tf \<le> tf'"
  then show "bm25Term e state chunkLen token tf \<le> bm25Term e state chunkLen token tf'"
    using bm25Term_mono by blast
next
  assume a: "snapshot_ok state \<and> tokensCount c = tokensCount c' \<and>
    (\<forall>t. getOr0 (tokenFreq c) t \<le> getOr0 (tokenFreq c') t)"
  show "bm25Score e c qf state \<le> bm25Score e c' qf state"
    unfolding bm25Score_sum using a
    by (intro sum_list_mono) (simp add: bm25Term_mono)
qed

theorem bm25_monotone_in_term_frequency_witness:
  "snapshot_ok helloCache \<and> (1::nat) \<le> 2 \<and>
   bm25Term defaultEnv helloCache 2 (js ''hello'') 1 \<le> bm25Term defaultEnv helloCache 2 (js ''hello'') 2 \<and>
   tokensCount helloChunk = tokensCount helloChunkTwice \<and>
   getOr0 (tokenFreq helloChunk) (js ''hello'') < getOr0 (tokenFreq helloChunkTwice) (js ''hello'') \<and>
   bm25Score defaultEnv helloChunk helloQuery helloCache
     \<le> bm25Score defaultEnv helloChunkTwice helloQuery helloCache"
proof -
  note t = bm25_monotone_in_term_frequency
    [of helloCache 1 2 defaultEnv 2 "js ''hello''" helloChunk helloChunkTwice helloQuery]
  have h1: "(1::nat) \<le> 2" by simp
  have h2: "tokensCount helloChunk = tokensCount helloChunkTwice"
    by (simp add: helloChunkTwice_def)
  have h3: "\<forall>t. getOr0 (tokenFreq helloChunk) t \<le> getOr0 (tokenFreq helloChunkTwice) t"
    by (simp add: helloChunkTwice_def helloChunk_def getOr0_def)
  have h4: "getOr0 (tokenFreq helloChunk) (js ''hello'') < getOr0 (tokenFreq helloChunkTwice) (js ''hello'')"
    by (simp add: helloChunkTwice_def helloChunk_def getOr0_def)
  from t helloCache_snapshot_ok h1
  have r1: "bm25Term defaultEnv helloCache 2 (js ''hello'') 1 \<le> bm25Term defaultEnv helloCache 2 (js ''hello'') 2"
    by blast
  from t helloCache_snapshot_ok h2 h3
  have r2: "bm25Score defaultEnv helloChunk helloQuery helloCache
     \<le> bm25Score defaultEnv helloChunkTwice helloQuery helloCache"
    by blast
  from helloCache_snapshot_ok h1 r1 h2 h4 r2 show ?thesis by blast
qed

section \<open>Queries without a common token\<close>

lemma bm25Score_no_shared_token:
  assumes "chunk_ok ch" "set (uniqueTokens qf) \<inter> set (tokenSet ch) = {}"
  shows "bm25Score e ch qf st = 0"
proof -
  have "bm25Term e st (tokensCount ch) token (getOr0 (tokenFreq ch) token) = 0"
    if "token \<in> set (uniqueTokens qf)" for token
  proof -
    from that assms(2) have "token \<notin> set (tokenSet ch)" by auto
    with assms(1) have "token \<notin> set (map fst (tokenFreq ch))" by (simp add: chunk_ok_def)
    then have "getOr0 (tokenFreq ch) token = 0" by (rule getOr0_absent)
    then show ?thesis by (simp add: bm25Term_zero)
  qed
  then show ?thesis
    unfolding bm25Score_sum by (intro sum_list_all_zero) simp
qed

lemma queryCoverage_no_shared_token:
  assumes "set (uniqueTokens qf) \<inter> set (tokenSet ch) = {}"
  shows "queryCoverage ch qf = 0"
proof -
  have "filter (\<lambda>token. token \<in> set (tokenSet ch)) (uniqueTokens qf) = []"
    using assms by (auto simp: filter_empty_conv)
  then show ?thesis by (simp add: queryCoverage_def)
qed

lemma scoreChunk_no_shared_token:
  assumes "chunk_ok ch" "set (uniqueTokens qf) \<inter> set (tokenSet ch) = {}"
  shows "fst (scoreChunk e ch qf st) = phraseScore ch qf + ngramSimilarity ch qf * (11 / 5)"
  by (simp add: scoreChunk_def Let_def bm25Score_no_shared_token [OF assms]
        queryCoverage_no_shared_token [OF assms(2)])

lemma applyMMR_Nil: "applyMMR e [] k = []"
  by (simp add: applyMMR_def)

lemma retrieve_empty_pool:
  assumes "ensureCache e w now c = Inr state"
    and "\<forall>ch \<in> set (chunks state).
           fst (scoreChunk e ch (buildQueryFeatures e (trim query)) state) < RAG_MIN_SCORE e"
  shows "retrieveKnowledge e w now c query = Inr noMatches"
proof -
  let ?qf = "buildQueryFeatures e (trim query)"
  have "filter (\<lambda>item. score item \<ge> RAG_MIN_SCORE e)
          (map (\<lambda>ch. let r = scoreChunk e ch ?qf state
                     in \<lparr> chunkOf = ch, score = fst r, metrics = snd r \<rparr>) (chunks state)) = []"
    using assms(2) by (auto simp: filter_empty_conv Let_def)
  then show ?thesis
    using assms(1)
    by (simp add: retrieveKnowledge_def Let_def sortByScoreDesc_def applyMMR_Nil
          buildContextMessage_def noMatches_def)
qed

text \<open>
  Claim C1, amended. For every query whose token set shares no token with the token
  set of any chunk of the snapshot that \<open>ensureCache\<close> serves, the BM25 and the coverage
  signal of every chunk are 0, so that a chunk's score is \<open>phrase + 2.2 * ngram\<close>; and
  when that sum is below \<open>RAG_MIN_SCORE\<close> for every chunk, \<open>retrieveKnowledge\<close> returns
  the result with empty matches.
\<close>

theorem no_shared_token_leaves_phrase_and_ngram:
  "snapshot_ok c \<and> ensureCache e w now c = Inr state \<and>
   (\<forall>ch \<in> set (chunks state).
      set (uniqueTokens (buildQueryFeatures e (trim query))) \<inter> set (tokenSet ch) = {}) \<longrightarrow>
     (\<forall>ch \<in> set (chunks state).
        bm25Score e ch (buildQueryFeatures e (trim query)) state = 0 \<and>
        queryCoverage ch (buildQueryFeatures e (trim query)) = 0 \<and>
        fst (scoreChunk e ch (buildQueryFeatures e (trim query)) state) =
          phraseScore ch (buildQueryFeatures e (trim query)) +
          ngramSimilarity ch (buildQueryFeatures e (trim query)) * (11 / 5)) \<and>
     ((\<forall>ch \<in> set (chunks state).
         phraseScore ch (buildQueryFeatures e (trim query)) +
         ngramSimilarity ch (buildQueryFeatures e (trim query)) * (11 / 5) < RAG_MIN_SCORE e)
       \<longrightarrow> retrieveKnowledge e w now c query = Inr noMatches)"
proof (intro impI)
  let ?qf = "buildQueryFeatures e (trim query)"
  assume a: "snapshot_ok c \<and> ensureCache e w now c = Inr state \<and>
   (\<forall>ch \<in> set (chunks state). set (uniqueTokens ?qf) \<inter> set (tokenSet ch) = {})"
  then have "snapshot_ok state" using ensureCache_snapshot_ok by blast
  then have ok: "chunk_ok ch" if "ch \<in> set (chunks state)" for ch
    using that by (simp add: snapshot_ok_def list_all_iff)
  have sc: "fst (scoreChunk e ch ?qf state) = phraseScore ch ?qf + ngramSimilarity ch ?qf * (11 / 5)"
    if "ch \<in> set (chunks state)" for ch
    using that a ok scoreChunk_no_shared_token by blast
  show "(\<forall>ch \<in> set (chunks state).
        bm25Score e ch ?qf state = 0 \<and> queryCoverage ch ?qf = 0 \<and>
        fst (scoreChunk e ch ?qf state) = phraseScore ch ?qf + ngramSimilarity ch ?qf * (11 / 5)) \<and>
     ((\<forall>ch \<in> set (chunks state).
         phraseScore ch ?qf + ngramSimilarity ch ?qf * (11 / 5) < RAG_MIN_SCORE e)
       \<longrightarrow> retrieveKnowledge e w now c query = Inr noMatches)"
  proof (intro conjI ballI impI)
    fix ch assume m: "ch \<in> set (chunks state)"
    with a ok show "bm25Score e ch ?qf state = 0"
      using bm25Score_no_shared_token by blast
    from m a show "queryCoverage ch ?qf = 0"
      using queryCoverage_no_shared_token by blast
    from m show "fst (scoreChunk e ch ?qf state) = phraseScore ch ?qf + ngramSimilarity ch ?qf * (11 / 5)"
      by (rule sc)
  next
    assume "\<forall>ch \<in> set (chunks state).
         phraseScore ch ?qf + ngramSimilarity ch ?qf * (11 / 5) < RAG_MIN_SCORE e"
    then have "\<forall>ch \<in> set (chunks state). fst (scoreChunk e ch ?qf state) < RAG_MIN_SCORE e"
      using sc by simp
    with a show "retrieveKnowledge e w now c query = Inr noMatches"
      using retrieve_empty_pool by blast
  qed
qed

lemma sqrt_64: "sqrt 64 = 8"
  by (rule real_sqrt_unique) simp_all

lemma helloworld_features:
  "buildQueryFeatures defaultEnv (trim (js ''helloworld'')) =
     \<lparr> qtext = js ''helloworld'', uniqueTokens = [js ''helloworld''],
       ngrams = [js ''hel'', js ''ell'', js ''llo'', js ''low'', js ''owo'', js ''wor'',
                 js ''orl'', js ''rld''],
       phrases = [js ''helloworld''] \<rparr>"
  by (simp add: buildQueryFeatures_def string_defs config_defs chunk_defs Let_def)

lemma helloworld_score:
  "scoreChunk defaultEnv helloChunk (buildQueryFeatures defaultEnv (trim (js ''helloworld''))) helloCache
     = (11 / 5, \<lparr> bm25 = 0, phrase = 0, ngram = 1, coverage = 0 \<rparr>)"
  unfolding helloworld_features
  by (simp add: scoreChunk_def bm25Score_def phraseScore_def ngramSimilarity_def
        queryCoverage_def intersectCount_def toFixed4_def helloChunk_def getOr0_def js_def sqrt_64)

lemma default_values:
  "RAG_ENABLED defaultEnv" "RAG_TOP_K defaultEnv = 4" "RAG_MIN_SCORE defaultEnv = 4 / 5"
  "RAG_CANDIDATE_MULTIPLIER defaultEnv = 8" "RAG_CONTEXT_MAX_CHARS defaultEnv = 4000"
  by (simp_all add: config_defs string_defs)

lemma hello_fresh: "ensureCache defaultEnv helloWorld 8 helloCache = Inr helloCache"
  by (simp add: ensureCache_def helloCache_def config_defs)

lemma hello_chunks: "chunks helloCache = [helloChunk]"
  by (simp add: helloCache_def)

lemma hello_block:
  "renderBlock 0 \<lparr> chunkOf = helloChunk, score = 11 / 5,
                   metrics = \<lparr> bm25 = 0, phrase = 0, ngram = 1, coverage = 0 \<rparr> \<rparr>
     = js ''[1] Source: knowledge/a.md'' @ [10] @ js ''Hello world'' @ [10]"
  by (simp add: renderBlock_def helloChunk_def js_def showNat.simps)

lemma helloworld_retrieve:
  "retrieveKnowledge defaultEnv helloWorld 8 helloCache (js ''helloworld'') =
     Inr \<lparr> matches = [\<lparr> m_source = js ''knowledge/a.md'', m_text = js ''Hello world'',
                         m_score = 11 / 5,
                         m_metrics = \<lparr> bm25 = 0, phrase = 0, ngram = 1, coverage = 0 \<rparr> \<rparr>],
           citations = [js ''knowledge/a.md''],
           contextMessage = Some (contextPreamble @ js ''[1] Source: knowledge/a.md'' @ [10]
                                  @ js ''Hello world'' @ [10]) \<rparr>"
proof -
  have t: "trim (js ''helloworld'') \<noteq> []"
    by (simp add: string_defs)
  have u: "uniqueTokens (buildQueryFeatures defaultEnv (trim (js ''helloworld''))) \<noteq> []"
    by (simp add: helloworld_features)
  have b: "length (js ''[1] Source: knowledge/a.md'' @ [10] @ js ''Hello world'' @ [10]) \<le> 4000"
    by (simp add: js_def)
  have m: "source helloChunk = js ''knowledge/a.md''" "ctext helloChunk = js ''Hello world''"
    by (simp_all add: helloChunk_def)
  show ?thesis
    unfolding retrieveKnowledge_def Let_def hello_fresh
    using t u b
    by (simp add: hello_chunks helloworld_score sortByScoreDesc_def applyMMR_def
          buildContextMessage_def hello_block m toFixed4_def contextPreamble_def preambleLines_def
          default_values)
qed

text \<open>
  Claim C1 as stated fails: the n-gram and phrase signals do not depend on tokens. The
  query \<open>helloworld\<close> has the one token \<open>helloworld\<close>, which the chunk \<open>Hello world\<close>
  (tokens \<open>hello\<close> and \<open>world\<close>) does not have, but its character trigrams are those
  of the chunk: the n-gram similarity is 1, the score 2.2, and the chunk is returned.
\<close>

theorem no_shared_token_still_matches:
  "ensureCache defaultEnv helloWorld 8 helloCache = Inr helloCache \<and>
   chunks helloCache = [helloChunk] \<and>
   set (uniqueTokens (buildQueryFeatures defaultEnv (trim (js ''helloworld''))))
     \<inter> set (tokenSet helloChunk) = {} \<and>
   retrieveKnowledge defaultEnv helloWorld 8 helloCache (js ''helloworld'') =
     Inr \<lparr> matches = [\<lparr> m_source = js ''knowledge/a.md'', m_text = js ''Hello world'',
                         m_score = 11 / 5,
                         m_metrics = \<lparr> bm25 = 0, phrase = 0, ngram = 1, coverage = 0 \<rparr> \<rparr>],
           citations = [js ''knowledge/a.md''],
           contextMessage = Some (contextPreamble @ js ''[1] Source: knowledge/a.md'' @ [10]
                                  @ js ''Hello world'' @ [10]) \<rparr>"
proof -
  have "set (uniqueTokens (buildQueryFeatures defaultEnv (trim (js ''helloworld''))))
     \<inter> set (tokenSet helloChunk) = {}"
    unfolding helloworld_features by (simp add: helloChunk_def js_def)
  with hello_fresh hello_chunks helloworld_retrieve show ?thesis by blast
qed

lemma zzz_features:
  "buildQueryFeatures defaultEnv (trim (js ''zzz'')) =
     \<lparr> qtext = js ''zzz'', uniqueTokens = [js ''zzz''], ngrams = [js ''zzz''], phrases = [] \<rparr>"
  by (simp add: buildQueryFeatures_def string_defs config_defs chunk_defs Let_def)

theorem no_shared_token_leaves_phrase_and_ngram_witness:
  "snapshot_ok helloCache \<and> ensureCache defaultEnv helloWorld 8 helloCache = Inr helloCache \<and>
   set (uniqueTokens (buildQueryFeatures defaultEnv (trim (js ''zzz'')))) \<inter> set (tokenSet helloChunk) = {} \<and>
   phraseScore helloChunk (buildQueryFeatures defaultEnv (trim (js ''zzz''))) +
     ngramSimilarity helloChunk (buildQueryFeatures defaultEnv (trim (js ''zzz''))) * (11 / 5)
     < RAG_MIN_SCORE defaultEnv \<and>
   bm25Score defaultEnv helloChunk (buildQueryFeatures defaultEnv (trim (js ''zzz''))) helloCache = 0 \<and>
   retrieveKnowledge defaultEnv helloWorld 8 helloCache (js ''zzz'') = Inr noMatches"
proof -
  let ?qf = "buildQueryFeatures defaultEnv (trim (js ''zzz''))"
  have h1: "set (uniqueTokens ?qf) \<inter> set (tokenSet helloChunk) = {}"
    unfolding zzz_features by (simp add: helloChunk_def js_def)
  have h2: "phraseScore helloChunk ?qf + ngramSimilarity helloChunk ?qf * (11 / 5)
              < RAG_MIN_SCORE defaultEnv"
    unfolding zzz_features
    by (simp add: phraseScore_def ngramSimilarity_def intersectCount_def helloChunk_def js_def
          config_defs)
  have a1: "\<forall>ch \<in> set (chunks helloCache). set (uniqueTokens ?qf) \<inter> set (tokenSet ch) = {}"
    using h1 by (simp add: hello_chunks)
  have a2: "\<forall>ch \<in> set (chunks helloCache).
         phraseScore ch ?qf + ngramSimilarity ch ?qf * (11 / 5) < RAG_MIN_SCORE defaultEnv"
    using h2 by (simp add: hello_chunks)
  have m: "helloChunk \<in> set (chunks helloCache)"
    by (simp add: hello_chunks)
  note t = no_shared_token_leaves_phrase_and_ngram
    [of helloCache defaultEnv helloWorld 8 helloCache "js ''zzz''"]
  from t helloCache_snapshot_ok hello_fresh a1 m
  have r1: "bm25Score defaultEnv helloChunk ?qf helloCache = 0"
    by blast
  from t helloCache_snapshot_ok hello_fresh a1 a2
  have r2: "retrieveKnowledge defaultEnv helloWorld 8 helloCache (js ''zzz'') = Inr noMatches"
    by blast
  from helloCache_snapshot_ok hello_fresh h1 h2 r1 r2 show ?thesis by blast
qed

section \<open>The chunker on short texts\<close>

subsection \<open>trim\<close>

lemma trim_isTrimmed: "isTrimmed s \<Longrightarrow> trim s = s"
proof -
  assume a: "isTrimmed s"
  then have "dropWhile isSpace s = s"
    by (simp add: isTrimmed_def dropWhile_eq_self_iff)
  moreover from a have "dropWhile isSpace (rev s) = rev s"
    by (simp add: isTrimmed_def dropWhile_eq_self_iff hd_rev)
  ultimately show ?thesis by (simp add: trim_def)
qed

lemma last_dropWhile_keep: "dropWhile P xs \<noteq> [] \<Longrightarrow> last (dropWhile P xs) = last xs"
  by (induction xs) (auto split: if_splits)

lemma isTrimmed_trim: "trim s \<noteq> [] \<Longrightarrow> isTrimmed (trim s)"
proof -
  let ?d = "dropWhile isSpace s"
  let ?r = "dropWhile isSpace (rev ?d)"
  assume "trim s \<noteq> []"
  then have r: "?r \<noteq> []" by (simp add: trim_def)
  have d: "?d \<noteq> []"
  proof
    assume "?d = []"
    then have "?r = []" by (simp only: rev.simps(1) dropWhile.simps(1))
    with r show False by blast
  qed
  have "\<not> isSpace (hd ?r)" using r by (rule hd_dropWhile)
  then have l: "\<not> isSpace (last (trim s))"
    using r by (simp add: trim_def last_rev)
  have "last ?r = last (rev ?d)" using r by (rule last_dropWhile_keep)
  also have "\<dots> = hd ?d" using d by (simp add: last_rev)
  finally have "hd (trim s) = hd ?d" using r by (simp add: trim_def hd_rev)
  moreover have "\<not> isSpace (hd ?d)" using d by (rule hd_dropWhile)
  ultimately show ?thesis using l \<open>trim s \<noteq> []\<close> by (simp add: isTrimmed_def)
qed

lemma length_trim: "length (trim s) \<le> length s"
proof -
  have "length (trim s) \<le> length (dropWhile isSpace s)"
    unfolding trim_def using length_dropWhile_le [of isSpace "rev (dropWhile isSpace s)"] by simp
  also have "\<dots> \<le> length s" by (rule length_dropWhile_le)
  finally show ?thesis .
qed

lemma trim_spaces_front:
  assumes "\<forall>c \<in> set pre. isSpace c" "isTrimmed p"
  shows "trim (pre @ p) = p"
proof -
  have "dropWhile isSpace (pre @ p) = dropWhile isSpace p"
    using assms(1) by (simp add: dropWhile_append2)
  also have "\<dots> = p" using assms(2) by (simp add: isTrimmed_def dropWhile_eq_self_iff)
  finally have "dropWhile isSpace (pre @ p) = p" .
  moreover have "dropWhile isSpace (rev p) = rev p"
    using assms(2) by (simp add: isTrimmed_def dropWhile_eq_self_iff hd_rev)
  ultimately show ?thesis by (simp add: trim_def)
qed

subsection \<open>join\<close>

lemma length_join2:
  "length (join [10, 10] ps) = sum_list (map length ps) + 2 * (length ps - 1)"
  by (simp add: length_join)

lemma join_snoc: "ps \<noteq> [] \<Longrightarrow> join sep (ps @ [p]) = join sep ps @ sep @ p"
  using join_append [of ps "[p]" sep] by simp

lemma join_isTrimmed:
  "ps \<noteq> [] \<Longrightarrow> \<forall>p \<in> set ps. isTrimmed p \<Longrightarrow> isTrimmed (join sep ps)"
proof (induction sep ps rule: join.induct)
  case (1 sep)
  then show ?case by simp
next
  case (2 sep x)
  then show ?case by simp
next
  case (3 sep x y ys)
  then have "isTrimmed (join sep (y # ys))" by simp
  moreover have "isTrimmed x" using 3 by simp
  ultimately show ?case by (simp add: isTrimmed_def)
qed

lemma length_join_take:
  "length (join [10, 10] (take k ps)) \<le> length (join [10, 10] ps)"
proof -
  have "sum_list (map length (take k ps)) \<le> sum_list (map length ps)"
    by (metis append_take_drop_id le_add1 map_append sum_list.append)
  moreover have "length (take k ps) - 1 \<le> length ps - 1" by simp
  ultimately show ?thesis unfolding length_join2 by (simp add: add_mono)
qed

subsection \<open>The pieces of a text\<close>

lemma length_replaceCRLF: "length (replaceCRLF s) \<le> length s"
  by (induction s rule: replaceCRLF.induct) auto

lemma splitBlankLines_nonempty: "splitBlankLines acc s \<noteq> []"
  by (induction acc s rule: splitBlankLines.induct) auto

lemma splitBlankLines_length:
  "sum_list (map length (splitBlankLines acc s)) + 2 * length (splitBlankLines acc s)
     \<le> length acc + length s + 2"
proof (induction acc s rule: splitBlankLines.induct)
  case (1 acc)
  show ?case by simp
next
  case (2 acc c)
  show ?case by simp
next
  case (3 acc c d cs)
  show ?case
  proof (cases "c = 10 \<and> d = 10")
    case True
    have "length (dropWhile (\<lambda>x. x = 10) cs) \<le> length cs" by (rule length_dropWhile_le)
    with 3(1) [OF True] True show ?thesis by simp
  next
    case False
    with 3(2) [OF False] show ?thesis by auto
  qed
qed

lemma filter_trim_length:
  "sum_list (map length (filter (\<lambda>x. x \<noteq> []) (map trim xs)))
     + 2 * length (filter (\<lambda>x. x \<noteq> []) (map trim xs))
     \<le> sum_list (map length xs) + 2 * length xs"
proof (induction xs)
  case Nil
  show ?case by simp
next
  case (Cons x xs)
  have "length (trim x) \<le> length x" by (rule length_trim)
  with Cons show ?case by simp
qed

lemma paragraphsOf_length:
  "sum_list (map length (paragraphsOf t)) + 2 * length (paragraphsOf t) \<le> length t + 2"
proof -
  have "sum_list (map length (paragraphsOf t)) + 2 * length (paragraphsOf t)
          \<le> sum_list (map length (splitBlankLines [] (replaceCRLF t)))
             + 2 * length (splitBlankLines [] (replaceCRLF t))"
    unfolding paragraphsOf_def by (rule filter_trim_length)
  also have "\<dots> \<le> length (replaceCRLF t) + 2"
    using splitBlankLines_length [of "[]" "replaceCRLF t"] by simp
  also have "\<dots> \<le> length t + 2"
    using length_replaceCRLF [of t] by simp
  finally show ?thesis .
qed

lemma join_paragraphsOf_length: "length (join [10, 10] (paragraphsOf t)) \<le> length t"
  using paragraphsOf_length [of t] unfolding length_join2
  by (cases "paragraphsOf t") simp_all

lemma paragraphsOf_isTrimmed: "p \<in> set (paragraphsOf t) \<Longrightarrow> isTrimmed p"
  by (auto simp: paragraphsOf_def isTrimmed_trim)

lemma paragraphStep_fits:
  assumes "\<forall>q \<in> set (done @ [p]). isTrimmed q"
    and "length (join [10, 10] (done @ [p])) \<le> maxChars"
  shows "paragraphStep maxChars ([], join [10, 10] done) p = Some ([], join [10, 10] (done @ [p]))"
proof -
  have p: "isTrimmed p" using assms(1) by simp
  have "length p \<le> length (join [10, 10] (done @ [p]))"
    unfolding length_join2 by simp
  with assms(2) have small: "\<not> length p > maxChars" by simp
  have t: "trim (join [10, 10] done @ [10, 10] @ p) = join [10, 10] (done @ [p])"
  proof (cases "done = []")
    case True
    have "\<forall>c \<in> set [10, 10 :: nat]. isSpace c" by (simp add: isSpace_def)
    then have "trim ([10, 10] @ p) = p" using p by (rule trim_spaces_front)
    with True show ?thesis by simp
  next
    case False
    then have j: "join [10, 10] (done @ [p]) = join [10, 10] done @ [10, 10] @ p"
      by (rule join_snoc)
    have "isTrimmed (join [10, 10] (done @ [p]))"
      using assms(1) by (intro join_isTrimmed) simp_all
    then have "trim (join [10, 10] (done @ [p])) = join [10, 10] (done @ [p])"
      by (rule trim_isTrimmed)
    then show ?thesis unfolding j .
  qed
  show ?thesis
    using small assms(2) unfolding paragraphStep_def
    by (simp only: fst_conv snd_conv t if_False if_True)
qed

lemma foldOpt_paragraphs_fit:
  assumes "\<forall>q \<in> set (done @ ps). isTrimmed q"
    and "length (join [10, 10] (done @ ps)) \<le> maxChars"
  shows "foldOpt (paragraphStep maxChars) ps ([], join [10, 10] done)
           = Some ([], join [10, 10] (done @ ps))"
  using assms
proof (induction ps arbitrary: "done")
  case Nil
  show ?case by simp
next
  case (Cons p ps)
  have "length (join [10, 10] (done @ [p])) \<le> length (join [10, 10] (done @ p # ps))"
    using length_join_take [of "Suc (length done)" "done @ p # ps"] by simp
  with Cons.prems(2) have fit: "length (join [10, 10] (done @ [p])) \<le> maxChars" by simp
  have tr: "\<forall>q \<in> set (done @ [p]). isTrimmed q" using Cons.prems(1) by simp
  have step: "paragraphStep maxChars ([], join [10, 10] done) p
                = Some ([], join [10, 10] (done @ [p]))"
    using tr fit by (rule paragraphStep_fits)
  have "foldOpt (paragraphStep maxChars) ps ([], join [10, 10] (done @ [p]))
          = Some ([], join [10, 10] ((done @ [p]) @ ps))"
    using Cons.prems by (intro Cons.IH) simp_all
  with step show ?case by simp
qed

lemma splitIntoChunks_short:
  assumes "length t \<le> maxChars"
  shows "splitIntoChunks t maxChars =
           Some (if paragraphsOf t = [] then [] else [join [10, 10] (paragraphsOf t)])"
proof -
  let ?ps = "paragraphsOf t"
  have tr: "\<forall>q \<in> set ([] @ ?ps). isTrimmed q"
    using paragraphsOf_isTrimmed by simp
  have fit: "length (join [10, 10] ([] @ ?ps)) \<le> maxChars"
    using join_paragraphsOf_length [of t] assms by simp
  from foldOpt_paragraphs_fit [OF tr fit]
  have f: "foldOpt (paragraphStep maxChars) ?ps ([], []) = Some ([], join [10, 10] ?ps)"
    by simp
  show ?thesis
  proof (cases "?ps = []")
    case True
    with f show ?thesis by (simp add: splitIntoChunks_def pushCurrent_def trim_def)
  next
    case False
    then have "isTrimmed (join [10, 10] ?ps)"
      using paragraphsOf_isTrimmed by (intro join_isTrimmed) simp_all
    then have "trim (join [10, 10] ?ps) = join [10, 10] ?ps" "join [10, 10] ?ps \<noteq> []"
      by (simp_all add: trim_isTrimmed isTrimmed_def)
    with f False show ?thesis by (simp add: splitIntoChunks_def pushCurrent_def)
  qed
qed

subsection \<open>A single trimmed paragraph\<close>

lemma replaceCRLF_id: "\<not> includesStr s [13, 10] \<Longrightarrow> replaceCRLF s = s"
  by (induction s rule: replaceCRLF.induct) auto

lemma splitBlankLines_id: "\<not> includesStr s [10, 10] \<Longrightarrow> splitBlankLines acc s = [rev acc @ s]"
  by (induction acc s rule: splitBlankLines.induct) auto

lemma paragraphsOf_single:
  assumes "isTrimmed t" "\<not> includesStr t [13, 10]" "\<not> includesStr t [10, 10]"
  shows "paragraphsOf t = [t]"
  using assms
  by (simp add: paragraphsOf_def replaceCRLF_id splitBlankLines_id trim_isTrimmed isTrimmed_def)

subsection \<open>The chunker returns\<close>

lemma hardSlice_returns:
  assumes "0 < maxChars"
  shows "\<exists>r. hardSlice sentence maxChars start = Some r"
proof (induction "length sentence - start" arbitrary: start rule: less_induct)
  case less
  show ?case
  proof (cases "start < length sentence")
    case True
    then have "length sentence - (start + maxChars) < length sentence - start"
      using assms by arith
    from less [OF this] obtain rest where "hardSlice sentence maxChars (start + maxChars) = Some rest"
      by blast
    with True show ?thesis by (subst hardSlice.simps) simp
  next
    case False
    then show ?thesis by (subst hardSlice.simps) simp
  qed
qed

lemma foldOpt_returns:
  assumes "\<And>s x. \<exists>s'. f s x = Some s'"
  shows "\<exists>s'. foldOpt f xs s = Some s'"
proof (induction xs arbitrary: s)
  case Nil
  show ?case by simp
next
  case (Cons x xs)
  from assms obtain s' where "f s x = Some s'" by blast
  with Cons [of s'] show ?case by simp
qed

lemma sentenceStep_returns:
  "0 < maxChars \<Longrightarrow> \<exists>st'. sentenceStep maxChars st sentence = Some st'"
  using hardSlice_returns [of maxChars sentence 0]
  by (auto simp: sentenceStep_def Let_def)

lemma paragraphStep_returns:
  "0 < maxChars \<Longrightarrow> \<exists>st'. paragraphStep maxChars st paragraph = Some st'"
  using foldOpt_returns [of "sentenceStep maxChars", OF sentenceStep_returns]
  by (simp add: paragraphStep_def)

lemma splitIntoChunks_returns:
  assumes "0 < maxChars"
  shows "\<exists>r. splitIntoChunks t maxChars = Some r"
proof -
  obtain st where "foldOpt (paragraphStep maxChars) (paragraphsOf t) ([], []) = Some st"
    using foldOpt_returns [of "paragraphStep maxChars", OF paragraphStep_returns [OF assms]]
    by blast
  then show ?thesis by (simp add: splitIntoChunks_def)
qed

subsection \<open>Splitting a chunk of a short text again\<close>

lemma noBlankLine_simps:
  "noBlankLine []" "noBlankLine [c]"
  "noBlankLine (c # d # cs) \<longleftrightarrow> \<not> (c = 10 \<and> d = 10) \<and> noBlankLine (d # cs)"
  by (simp_all add: noBlankLine_def)

lemma noBlankLine_append:
  "noBlankLine (xs @ ys) \<longleftrightarrow>
     noBlankLine xs \<and> noBlankLine ys \<and> (xs \<noteq> [] \<and> ys \<noteq> [] \<longrightarrow> \<not> (last xs = 10 \<and> hd ys = 10))"
  unfolding noBlankLine_def by (auto simp: successively_append_iff)

lemma noBlankLine_rev: "noBlankLine (rev xs) \<longleftrightarrow> noBlankLine xs"
proof (induction xs)
  case Nil
  show ?case by simp
next
  case (Cons x xs)
  show ?case
    using Cons by (cases xs) (auto simp: noBlankLine_append noBlankLine_simps last_rev)
qed

lemma noBlankLine_dropWhile: "noBlankLine xs \<Longrightarrow> noBlankLine (dropWhile Q xs)"
  unfolding noBlankLine_def by (induction xs) (auto simp: successively_Cons)

lemma noBlankLine_trim: "noBlankLine s \<Longrightarrow> noBlankLine (trim s)"
  unfolding trim_def by (intro noBlankLine_rev [THEN iffD2] noBlankLine_dropWhile)

lemma splitBlankLines_noBlankLine:
  assumes "noBlankLine (rev acc)"
    and "acc \<noteq> [] \<and> s \<noteq> [] \<longrightarrow> \<not> (hd acc = 10 \<and> hd s = 10)"
  shows "\<forall>q \<in> set (splitBlankLines acc s). noBlankLine q"
  using assms
proof (induction acc s rule: splitBlankLines.induct)
  case (1 acc)
  then show ?case by simp
next
  case (2 acc c)
  then show ?case by (auto simp: noBlankLine_append noBlankLine_simps last_rev)
next
  case (3 acc c d cs)
  show ?case
  proof (cases "c = 10 \<and> d = 10")
    case True
    with 3(1) [OF True] 3(3) show ?thesis by (simp add: noBlankLine_simps)
  next
    case False
    have "noBlankLine (rev (c # acc))"
      using 3(3,4) by (auto simp: noBlankLine_append noBlankLine_simps last_rev)
    moreover have "c # acc \<noteq> [] \<and> d # cs \<noteq> [] \<longrightarrow> \<not> (hd (c # acc) = 10 \<and> hd (d # cs) = 10)"
      using False by simp
    ultimately show ?thesis using 3(2) [OF False] False by auto
  qed
qed

lemma paragraphsOf_noBlankLine: "p \<in> set (paragraphsOf t) \<Longrightarrow> noBlankLine p"
  using splitBlankLines_noBlankLine [of "[]" "replaceCRLF t"]
  by (auto simp: paragraphsOf_def noBlankLine_trim noBlankLine_simps)

lemma splitBlankLines_last_piece:
  "noBlankLine (rev acc @ p) \<Longrightarrow> splitBlankLines acc p = [rev acc @ p]"
proof (induction acc p rule: splitBlankLines.induct)
  case (1 acc)
  show ?case by simp
next
  case (2 acc c)
  show ?case by simp
next
  case (3 acc c d cs)
  from 3(3) have ok: "\<not> (c = 10 \<and> d = 10)"
    by (simp add: noBlankLine_append noBlankLine_simps)
  from 3(3) have "noBlankLine (rev (c # acc) @ d # cs)"
    by simp
  with 3(2) [OF ok] ok show ?case by simp
qed

lemma splitBlankLines_first_piece:
  "noBlankLine (rev acc @ p) \<Longrightarrow> p \<noteq> [] \<Longrightarrow> last p \<noteq> 10 \<Longrightarrow>
     splitBlankLines acc (p @ 10 # 10 # r)
       = (rev acc @ p) # splitBlankLines [] (dropWhile (\<lambda>x. x = 10) r)"
proof (induction p arbitrary: acc)
  case Nil
  then show ?case by simp
next
  case (Cons c p)
  show ?case
  proof (cases p)
    case Nil
    with Cons.prems show ?thesis by simp
  next
    case (Cons c' p')
    from Cons.prems(1) Cons have ok: "\<not> (c = 10 \<and> c' = 10)"
      by (simp add: noBlankLine_append noBlankLine_simps)
    have "noBlankLine (rev (c # acc) @ p)"
      using Cons.prems(1) by simp
    moreover have "p \<noteq> []" "last p \<noteq> 10" using Cons Cons.prems(3) by simp_all
    ultimately have "splitBlankLines (c # acc) (p @ 10 # 10 # r)
       = (rev (c # acc) @ p) # splitBlankLines [] (dropWhile (\<lambda>x. x = 10) r)"
      by (rule Cons.IH)
    with ok Cons show ?thesis by simp
  qed
qed

lemma splitBlankLines_join:
  assumes "ps \<noteq> []" and "\<forall>p \<in> set ps. isTrimmed p \<and> noBlankLine p"
  shows "splitBlankLines [] (join [10, 10] ps) = ps"
  using assms
proof (induction ps)
  case Nil
  then show ?case by simp
next
  case (Cons p qs)
  have p: "isTrimmed p" "noBlankLine p"
    using Cons.prems(2) by simp_all
  then have l: "p \<noteq> []" "last p \<noteq> 10"
    by (auto simp: isTrimmed_def isSpace_def)
  show ?case
  proof (cases qs)
    case Nil
    then show ?thesis using splitBlankLines_last_piece [of "[]" p] p by simp
  next
    case (Cons q qs')
    then have ne: "qs \<noteq> []" by simp
    have "isTrimmed (join [10, 10] qs)"
      using ne Cons.prems(2) by (intro join_isTrimmed) simp_all
    then have "hd (join [10, 10] qs) \<noteq> 10" "join [10, 10] qs \<noteq> []"
      by (auto simp: isTrimmed_def isSpace_def)
    then have d: "dropWhile (\<lambda>x. x = 10) (join [10, 10] qs) = join [10, 10] qs"
      by (simp add: dropWhile_eq_self_iff)
    have "splitBlankLines [] (p @ 10 # 10 # join [10, 10] qs)
            = (rev [] @ p) # splitBlankLines [] (dropWhile (\<lambda>x. x = 10) (join [10, 10] qs))"
      using p(2) l by (intro splitBlankLines_first_piece) simp_all
    also have "\<dots> = p # qs"
      unfolding d using Cons.IH [OF ne] Cons.prems(2) by simp
    finally show ?thesis using Cons by simp
  qed
qed

lemma replaceCRLF_no_cr: "13 \<notin> set s \<Longrightarrow> replaceCRLF s = s"
  by (induction s rule: replaceCRLF.induct) auto

lemma set_replaceCRLF: "set (replaceCRLF s) \<subseteq> set s"
  by (induction s rule: replaceCRLF.induct) auto

lemma set_splitBlankLines:
  "q \<in> set (splitBlankLines acc s) \<Longrightarrow> set q \<subseteq> set acc \<union> set s"
proof (induction acc s arbitrary: q rule: splitBlankLines.induct)
  case (1 acc)
  then show ?case by auto
next
  case (2 acc c)
  then show ?case by auto
next
  case (3 acc c d cs)
  show ?case
  proof (cases "c = 10 \<and> d = 10")
    case True
    with 3(3) have "q = rev acc \<or> q \<in> set (splitBlankLines [] (dropWhile (\<lambda>x. x = 10) cs))"
      by simp
    then show ?thesis
    proof
      assume "q = rev acc"
      then show ?thesis by auto
    next
      assume "q \<in> set (splitBlankLines [] (dropWhile (\<lambda>x. x = 10) cs))"
      from 3(1) [OF True this] have "set q \<subseteq> set (dropWhile (\<lambda>x. x = 10) cs)" by simp
      then show ?thesis using set_dropWhileD [of _ "\<lambda>x. x = 10" cs] by auto
    qed
  next
    case False
    with 3(3) have "q \<in> set (splitBlankLines (c # acc) (d # cs))" by auto
    from 3(2) [OF False this] show ?thesis by auto
  qed
qed

lemma set_trim: "set (trim s) \<subseteq> set s"
proof
  fix x assume "x \<in> set (trim s)"
  then have "x \<in> set (dropWhile isSpace (rev (dropWhile isSpace s)))"
    by (simp add: trim_def)
  then have "x \<in> set (rev (dropWhile isSpace s))" by (rule set_dropWhileD)
  then have "x \<in> set (dropWhile isSpace s)" by simp
  then show "x \<in> set s" by (rule set_dropWhileD)
qed

lemma set_join: "set (join sep ps) \<subseteq> set sep \<union> \<Union> (set ` set ps)"
  by (induction sep ps rule: join.induct) auto

lemma set_paragraphsOf: "p \<in> set (paragraphsOf t) \<Longrightarrow> set p \<subseteq> set t"
proof -
  assume "p \<in> set (paragraphsOf t)"
  then obtain q where q: "q \<in> set (splitBlankLines [] (replaceCRLF t))" and p: "p = trim q"
    by (auto simp: paragraphsOf_def)
  from set_splitBlankLines [OF q] have "set q \<subseteq> set (replaceCRLF t)" by simp
  with set_replaceCRLF [of t] set_trim [of q] p show ?thesis by blast
qed

lemma paragraphsOf_join:
  assumes "13 \<notin> set t" "paragraphsOf t \<noteq> []"
  shows "paragraphsOf (join [10, 10] (paragraphsOf t)) = paragraphsOf t"
proof -
  let ?ps = "paragraphsOf t"
  let ?j = "join [10, 10] ?ps"
  have "13 \<notin> set ?j"
    using set_join [of "[10, 10]" ?ps] set_paragraphsOf [of _ t] assms(1) by fastforce
  then have r: "replaceCRLF ?j = ?j" by (rule replaceCRLF_no_cr)
  have good: "\<forall>p \<in> set ?ps. isTrimmed p \<and> noBlankLine p"
    using paragraphsOf_isTrimmed paragraphsOf_noBlankLine by blast
  with assms(2) have s: "splitBlankLines [] ?j = ?ps" by (rule splitBlankLines_join)
  have "map trim ?ps = ?ps"
    using good by (intro map_idI) (simp add: trim_isTrimmed)
  moreover have "filter (\<lambda>x. x \<noteq> []) ?ps = ?ps"
    using good by (intro filter_True) (auto simp: isTrimmed_def)
  ultimately show ?thesis
    by (simp add: paragraphsOf_def [of ?j] r s)
qed

lemma resplit_short:
  assumes "length t \<le> maxChars" "13 \<notin> set t" "splitIntoChunks t maxChars = Some cs" "c \<in> set cs"
  shows "splitIntoChunks c maxChars = Some [c]"
proof -
  let ?ps = "paragraphsOf t"
  from assms(1,3) have cs: "cs = (if ?ps = [] then [] else [join [10, 10] ?ps])"
    by (simp add: splitIntoChunks_short)
  with assms(4) have ne: "?ps \<noteq> []" and c: "c = join [10, 10] ?ps"
    by (auto split: if_splits)
  have "length c \<le> maxChars"
    using join_paragraphsOf_length [of t] assms(1) c by simp
  then have "splitIntoChunks c maxChars =
               Some (if paragraphsOf c = [] then [] else [join [10, 10] (paragraphsOf c)])"
    by (rule splitIntoChunks_short)
  moreover have "paragraphsOf c = ?ps"
    unfolding c using assms(2) ne by (rule paragraphsOf_join)
  ultimately show ?thesis using ne c by simp
qed

text \<open>
  Claim C6, amended. For every text no longer than \<open>maxChars\<close>, \<open>splitIntoChunks\<close>
  returns at most one chunk and does not split: the chunk is the text's trimmed,
  non-empty paragraphs joined by one blank line (no chunk when there is no such
  paragraph). A text that already has this form is returned unchanged as a single
  chunk; in particular a non-empty text without white space at its ends that contains
  neither a blank line nor a carriage return followed by a line feed. The chunk of a
  text without carriage returns is such a text: splitting it again returns it
  unchanged. For every positive \<open>maxChars\<close> the function returns.
\<close>

theorem short_text_is_one_normalised_chunk:
  "(length t \<le> maxChars \<longrightarrow>
      splitIntoChunks t maxChars =
        Some (if paragraphsOf t = [] then [] else [join [10, 10] (paragraphsOf t)])) \<and>
   (length t \<le> maxChars \<and> t \<noteq> [] \<and> join [10, 10] (paragraphsOf t) = t \<longrightarrow>
      splitIntoChunks t maxChars = Some [t]) \<and>
   (length t \<le> maxChars \<and> isTrimmed t \<and> \<not> includesStr t [13, 10] \<and> \<not> includesStr t [10, 10] \<longrightarrow>
      splitIntoChunks t maxChars = Some [t]) \<and>
   (length t \<le> maxChars \<and> 13 \<notin> set t \<and> splitIntoChunks t maxChars = Some cs \<and> c \<in> set cs \<longrightarrow>
      splitIntoChunks c maxChars = Some [c]) \<and>
   (0 < maxChars \<longrightarrow> (\<exists>r. splitIntoChunks t maxChars = Some r))"
proof (intro conjI impI)
  assume "length t \<le> maxChars"
  then show "splitIntoChunks t maxChars =
        Some (if paragraphsOf t = [] then [] else [join [10, 10] (paragraphsOf t)])"
    by (rule splitIntoChunks_short)
next
  assume a: "length t \<le> maxChars \<and> t \<noteq> [] \<and> join [10, 10] (paragraphsOf t) = t"
  then have "paragraphsOf t \<noteq> []" by auto
  with a show "splitIntoChunks t maxChars = Some [t]"
    by (simp add: splitIntoChunks_short)
next
  assume a: "length t \<le> maxChars \<and> isTrimmed t \<and> \<not> includesStr t [13, 10] \<and> \<not> includesStr t [10, 10]"
  then have "paragraphsOf t = [t]" by (simp add: paragraphsOf_single)
  with a show "splitIntoChunks t maxChars = Some [t]"
    by (simp add: splitIntoChunks_short)
next
  assume "length t \<le> maxChars \<and> 13 \<notin> set t \<and> splitIntoChunks t maxChars = Some cs \<and> c \<in> set cs"
  then show "splitIntoChunks c maxChars = Some [c]"
    using resplit_short by blast
next
  assume "0 < maxChars"
  then show "\<exists>r. splitIntoChunks t maxChars = Some r" by (rule splitIntoChunks_returns)
qed

theorem short_text_is_one_normalised_chunk_witness:
  "length (js ''Hello world'') \<le> 800 \<and> isTrimmed (js ''Hello world'') \<and>
   \<not> includesStr (js ''Hello world'') [13, 10] \<and> \<not> includesStr (js ''Hello world'') [10, 10] \<and>
   splitIntoChunks (js ''Hello world'') 800 = Some [js ''Hello world''] \<and>
   paragraphsOf (js ''a'' @ [10, 10, 10] @ js ''b'') = [js ''a'', js ''b''] \<and>
   splitIntoChunks (js ''a'' @ [10, 10, 10] @ js ''b'') 800 = Some [js ''a'' @ [10, 10] @ js ''b''] \<and>
   13 \<notin> set (js ''a'' @ [10, 10, 10] @ js ''b'') \<and>
   splitIntoChunks (js ''a'' @ [10, 10] @ js ''b'') 800 = Some [js ''a'' @ [10, 10] @ js ''b'']"
proof -
  have h: "length (js ''Hello world'') \<le> 800 \<and> isTrimmed (js ''Hello world'') \<and>
   \<not> includesStr (js ''Hello world'') [13, 10] \<and> \<not> includesStr (js ''Hello world'') [10, 10]"
    by (simp add: js_def isTrimmed_def isSpace_def)
  have p: "paragraphsOf (js ''a'' @ [10, 10, 10] @ js ''b'') = [js ''a'', js ''b'']"
    by (simp add: paragraphsOf_def string_defs)
  have l: "length (js ''a'' @ [10, 10, 10] @ js ''b'') \<le> 800"
    by (simp add: js_def)
  note t = short_text_is_one_normalised_chunk
  from t [of "js ''Hello world''" 800] h
  have r1: "splitIntoChunks (js ''Hello world'') 800 = Some [js ''Hello world'']" by blast
  from t [of "js ''a'' @ [10, 10, 10] @ js ''b''" 800] l
  have "splitIntoChunks (js ''a'' @ [10, 10, 10] @ js ''b'') 800 =
          Some (if paragraphsOf (js ''a'' @ [10, 10, 10] @ js ''b'') = [] then []
                else [join [10, 10] (paragraphsOf (js ''a'' @ [10, 10, 10] @ js ''b''))])"
    by blast
  then have r2: "splitIntoChunks (js ''a'' @ [10, 10, 10] @ js ''b'') 800 = Some [js ''a'' @ [10, 10] @ js ''b'']"
    unfolding p by simp
  have n: "13 \<notin> set (js ''a'' @ [10, 10, 10] @ js ''b'')"
    by (simp add: js_def)
  have m: "js ''a'' @ [10, 10] @ js ''b'' \<in> set [js ''a'' @ [10, 10] @ js ''b'']"
    by simp
  from t [of "js ''a'' @ [10, 10, 10] @ js ''b''" 800 "[js ''a'' @ [10, 10] @ js ''b'']"
            "js ''a'' @ [10, 10] @ js ''b''"] l n r2 m
  have r3: "splitIntoChunks (js ''a'' @ [10, 10] @ js ''b'') 800 = Some [js ''a'' @ [10, 10] @ js ''b'']"
    by blast
  from h p r1 r2 n r3 show ?thesis by blast
qed

subsection \<open>Texts that the chunker changes\<close>

lemma splitSentences_id:
  "\<forall>c \<in> set s. \<not> isTerminator c \<Longrightarrow> splitSentences acc s = [rev acc @ s]"
  by (induction acc s rule: splitSentences.induct) auto

lemma includesStr_set: "includesStr s p \<Longrightarrow> set p \<subseteq> set s"
proof (induction s)
  case Nil
  then show ?case by simp
next
  case (Cons c cs)
  from Cons.prems have "take (length p) (c # cs) = p \<or> includesStr cs p" by simp
  then show ?case
  proof
    assume "take (length p) (c # cs) = p"
    then have "set p = set (take (length p) (c # cs))" by simp
    then show ?thesis using set_take_subset [of "length p" "c # cs"] by blast
  next
    assume "includesStr cs p"
    with Cons.IH show ?thesis by auto
  qed
qed

lemma no_char_no_pair: "b \<notin> set s \<Longrightarrow> \<not> includesStr s [a, b]"
  using includesStr_set [of s "[a, b]"] by auto

lemma trim_Nil: "trim [] = []"
  by (simp add: trim_def)

lemma longLine_paragraphs: "paragraphsOf longLine = [longLine]"
proof -
  have "isTrimmed longLine"
    by (simp add: longLine_def isTrimmed_def isSpace_def hd_append)
  moreover have "10 \<notin> set longLine" by (simp add: longLine_def)
  ultimately show ?thesis by (intro paragraphsOf_single no_char_no_pair) simp_all
qed

lemma longLine_windows:
  "hardSlice longLine 200 0 = Some [replicate 199 97 @ [32], [98]]"
proof -
  have l: "length longLine = 201" by (simp add: longLine_def)
  have "hardSlice longLine 200 400 = Some []"
    by (subst hardSlice.simps) (simp add: l)
  then have "hardSlice longLine 200 200 = Some [slice longLine 200 400]"
    by (subst hardSlice.simps) (simp add: l)
  then have "hardSlice longLine 200 0 = Some [slice longLine 0 200, slice longLine 200 400]"
    by (subst hardSlice.simps) (simp add: l)
  then show ?thesis by (simp add: slice_def longLine_def)
qed

lemma longLine_split:
  "splitIntoChunks longLine 200 = Some [replicate 199 97 @ [32], [98]]"
proof -
  have l: "length longLine = 201" by (simp add: longLine_def)
  have tr: "isTrimmed longLine"
    by (simp add: longLine_def isTrimmed_def isSpace_def hd_append)
  have "\<forall>c \<in> set longLine. \<not> isTerminator c"
    by (auto simp: longLine_def isTerminator_def)
  then have s: "splitSentences [] longLine = [longLine]"
    using splitSentences_id [of longLine "[]"] by simp
  have "\<forall>c \<in> set (js '' ''). isSpace c" by (simp add: js_def isSpace_def)
  then have t: "trim (js '' '' @ longLine) = longLine" using tr by (rule trim_spaces_front)
  have ne: "longLine \<noteq> []" using tr by (simp add: isTrimmed_def)
  have "sentenceStep 200 ([], []) longLine = Some ([replicate 199 97 @ [32], [98]], [])"
    by (simp add: sentenceStep_def t l pushCurrent_def trim_Nil longLine_windows)
  then have "paragraphStep 200 ([], []) longLine = Some ([replicate 199 97 @ [32], [98]], [])"
    using ne by (simp add: paragraphStep_def l s)
  then show ?thesis
    by (simp add: splitIntoChunks_def longLine_paragraphs pushCurrent_def trim_Nil)
qed

lemma longLine_resplit:
  "splitIntoChunks (replicate 199 97 @ [32]) 200 = Some [replicate 199 97]"
proof -
  let ?c = "replicate 199 97 @ [32 :: nat]"
  have "replaceCRLF ?c = ?c"
    by (intro replaceCRLF_id no_char_no_pair) simp
  moreover have "splitBlankLines [] ?c = [?c]"
    using splitBlankLines_id [of ?c "[]"] no_char_no_pair [of 10 ?c 10] by simp
  moreover have "trim ?c = replicate 199 97"
    by (simp add: trim_def isSpace_def dropWhile_eq_self_iff [THEN iffD2])
  ultimately have "paragraphsOf ?c = [replicate 199 97]"
    by (simp add: paragraphsOf_def)
  moreover have "length ?c \<le> 200" by simp
  ultimately show ?thesis by (simp add: splitIntoChunks_short)
qed

text \<open>
  Claim C6 as stated fails. A text no longer than \<open>maxChars\<close> is normalised, not
  returned unchanged: three line feeds between two paragraphs become two, and leading
  white space is dropped. Re-splitting a produced chunk need not reproduce it either:
  of a line of 201 characters and \<open>maxChars = 200\<close> the first chunk is the window of
  the first 200 characters, which ends with a space, and splitting that chunk again
  gives it without the space.
\<close>

theorem chunking_is_not_idempotent:
  "length (js ''a'' @ [10, 10, 10] @ js ''b'') \<le> 800 \<and>
   splitIntoChunks (js ''a'' @ [10, 10, 10] @ js ''b'') 800 = Some [js ''a'' @ [10, 10] @ js ''b''] \<and>
   length (js '' a'') \<le> 800 \<and> splitIntoChunks (js '' a'') 800 = Some [js ''a''] \<and>
   splitIntoChunks longLine 200 = Some [replicate 199 97 @ [32], [98]] \<and>
   splitIntoChunks (replicate 199 97 @ [32]) 200 = Some [replicate 199 97]"
proof -
  have "splitIntoChunks (js ''a'' @ [10, 10, 10] @ js ''b'') 800 = Some [js ''a'' @ [10, 10] @ js ''b'']"
    by (simp add: string_defs chunk_defs)
  moreover have "splitIntoChunks (js '' a'') 800 = Some [js ''a'']"
    by (simp add: string_defs chunk_defs)
  moreover have "length (js ''a'' @ [10, 10, 10] @ js ''b'') \<le> 800" "length (js '' a'') \<le> 800"
    by (simp_all add: js_def)
  ultimately show ?thesis using longLine_split longLine_resplit by blast
qed

section \<open>Failures of a rebuild\<close>

text \<open>A knowledge root that cannot be accessed is recorded in \<open>lastError\<close>, a file
  that cannot be read gives no chunk, and a tree that can be listed is indexed without
  an error.\<close>

lemma missing_root_is_recorded:
  assumes "RAG_ENABLED e" "rootNode w = None"
  shows "rebuildCache e w now =
           Inr \<lparr> loadedAt = now, chunks = [], files = 0,
                 lastError = Some (js ''knowledge directory not found: '' @ knowledgeRoot w),
                 dfMap = [], avgTokens = 0 \<rparr>"
  using assms by (simp add: rebuildCache_def)

lemma unreadable_file_gives_no_chunk:
  assumes "readFileOrEmpty w filePath = []"
  shows "fileChunks e w filePath = []"
proof -
  have "splitIntoChunks [] (RAG_CHUNK_SIZE e) = Some []"
    by (simp add: splitIntoChunks_short paragraphsOf_def trim_Nil)
  with assms show ?thesis by (simp add: fileChunks_def)
qed

lemma listable_tree_is_indexed:
  assumes "RAG_ENABLED e" "rootNode w = Some node" "walkFiles (rootRelative w) node = Inr filePaths"
  shows "\<exists>c. rebuildCache e w now = Inr c \<and> lastError c = None \<and> files c = length filePaths \<and>
             chunks c = concat (map (fileChunks e w) filePaths)"
  using assms by (simp add: rebuildCache_def Let_def)

text \<open>
  Claim C7 says that no failure of a rebuild throws. The code absorbs a knowledge root
  that cannot be accessed and a file that cannot be read, but not a directory that
  cannot be listed: when \<open>readdir\<close> fails in \<open>walkFiles\<close>, on the root or on any
  directory below it, \<open>rebuildCache\<close> throws, the variable \<open>cache\<close> stays as it was, and
  the exception reaches the callers of \<open>retrieveKnowledge\<close> and \<open>getRagStatus\<close>.
\<close>

theorem readdir_failure_surfaces:
  "RAG_ENABLED e \<and> trim query \<noteq> [] \<and> RAG_CACHE_TTL_MS e \<le> now - loadedAt c \<and>
   rootNode w = Some node \<and> walkFiles (rootRelative w) node = Inl err
   \<longrightarrow> rebuildCache e w now = Inl err \<and> retrieveKnowledge e w now c query = Inl err \<and>
       getRagStatus e w now c = Inl err \<and> cacheAfter e w now c = c"
  by (simp add: rebuildCache_def ensureCache_def retrieveKnowledge_def getRagStatus_def
        cacheAfter_def Let_def)

theorem readdir_failure_surfaces_witness:
  "rebuildCache defaultEnv lockedWorld 20000 = Inl (ReaddirFailed [js ''knowledge'', js ''private'']) \<and>
   retrieveKnowledge defaultEnv lockedWorld 20000 initialCache (js ''hello'')
     = Inl (ReaddirFailed [js ''knowledge'', js ''private'']) \<and>
   getRagStatus defaultEnv lockedWorld 20000 initialCache
     = Inl (ReaddirFailed [js ''knowledge'', js ''private'']) \<and>
   cacheAfter defaultEnv lockedWorld 20000 initialCache = initialCache"
proof -
  have h: "RAG_ENABLED defaultEnv \<and> trim (js ''hello'') \<noteq> [] \<and>
           RAG_CACHE_TTL_MS defaultEnv \<le> 20000 - loadedAt initialCache \<and>
           rootNode lockedWorld = Some (Dir (Some [(js ''a.md'', File (Some (js ''Hello world''))),
                                                  (js ''private'', Dir None)])) \<and>
           walkFiles (rootRelative lockedWorld)
             (Dir (Some [(js ''a.md'', File (Some (js ''Hello world''))), (js ''private'', Dir None)]))
             = Inl (ReaddirFailed [js ''knowledge'', js ''private''])"
    by (simp add: lockedWorld_def initialCache_def string_defs config_defs index_defs)
  from readdir_failure_surfaces [of defaultEnv "js ''hello''" 20000 initialCache lockedWorld] h
  show ?thesis by blast
qed

end
